theory Spec2Isabelle
  imports Main
begin

section \<open>The reference.config loader of util-reference-config.c\<close>

text \<open>
  A C string is modelled by its content, the list of characters before the terminating
  NUL.  A \<open>FILE *\<close> opened for reading is modelled by the characters that remain to be
  read.  Allocation (\<open>SCMalloc\<close>, \<open>SCStrdup\<close>) is assumed to succeed, so a pointer
  that the code obtains from an allocation is never NULL in the model.
\<close>

subsection \<open>Characters of the C library\<close>

definition NUL :: char where
  "NUL = CHR 0x00"

definition NL :: char where
  "NL = CHR 0x0A"

text \<open>\<open>isspace\<close> in the C locale: space, \<open>\t\<close>, \<open>\n\<close>, \<open>\v\<close>, \<open>\f\<close>, \<open>\r\<close>.\<close>

definition isspace :: "char \<Rightarrow> bool" where
  "isspace c \<longleftrightarrow>
     c = CHR '' '' \<or> c = CHR 0x09 \<or> c = CHR 0x0A \<or> c = CHR 0x0B \<or> c = CHR 0x0C \<or> c = CHR 0x0D"

text \<open>\<open>tolower\<close> in the C locale: only \<open>A\<close> .. \<open>Z\<close> change.\<close>

definition tolower :: "char \<Rightarrow> char" where
  "tolower c =
     (let n = (of_char c :: nat) in if 65 \<le> n \<and> n \<le> 90 then char_of (n + 32) else c)"

subsection \<open>SCRConfIsLineBlankOrComment\<close>

text \<open>
  The while loop walks the string; \<open>#\<close> returns 1, a character that is not white space
  returns 0, the end of the string returns 1.
\<close>

fun SCRConfIsLineBlankOrComment :: "string \<Rightarrow> int" where
  "SCRConfIsLineBlankOrComment [] = 1"
| "SCRConfIsLineBlankOrComment (c # line) =
     (if c = CHR ''#'' then 1
      else if \<not> isspace c then 0
      else SCRConfIsLineBlankOrComment line)"

subsection \<open>The PCRE pattern SC_RCONF_REGEX\<close>

text \<open>
  The pattern is compiled with no option and run with \<open>pcre_exec\<close> (Perl-compatible,
  backtracking, greedy quantifiers).  The model covers the constructs that the pattern
  uses: a character class taken once, zero or more times, one or more times; the anchors
  \<open>^\<close> and \<open>$\<close>; the start and the end of a capturing group.

  Character classes: a literal character; \<open>\s\<close> (space, HT, LF, VT, FF, CR, as in
  PCRE 8.34 and later); \<open>[a-zA-Z]\<close>; \<open>[a-zA-Z0-9-_]\<close>, where the hyphen after the range
  \<open>0-9\<close> is a literal hyphen; and \<open>.\<close>, which without \<open>PCRE_DOTALL\<close> is every
  character but the newline LF.
\<close>

datatype cclass = Lit char | Space | Alpha | NameCh | AnyCh

definition pcre_space :: "char \<Rightarrow> bool" where
  "pcre_space c \<longleftrightarrow>
     c = CHR '' '' \<or> c = CHR 0x09 \<or> c = CHR 0x0A \<or> c = CHR 0x0B \<or> c = CHR 0x0C \<or> c = CHR 0x0D"

definition is_alpha :: "char \<Rightarrow> bool" where
  "is_alpha c \<longleftrightarrow>
     (let n = (of_char c :: nat) in (97 \<le> n \<and> n \<le> 122) \<or> (65 \<le> n \<and> n \<le> 90))"

definition is_digit :: "char \<Rightarrow> bool" where
  "is_digit c \<longleftrightarrow> (let n = (of_char c :: nat) in 48 \<le> n \<and> n \<le> 57)"

fun cmatch :: "cclass \<Rightarrow> char \<Rightarrow> bool" where
  "cmatch (Lit a) c = (c = a)"
| "cmatch Space c = pcre_space c"
| "cmatch Alpha c = is_alpha c"
| "cmatch NameCh c = (is_alpha c \<or> is_digit c \<or> c = CHR ''-'' \<or> c = CHR ''_'')"
| "cmatch AnyCh c = (c \<noteq> NL)"

datatype item =
    One cclass      \<comment> \<open>the class, once\<close>
  | Star cclass     \<comment> \<open>the class, greedy \<open>*\<close>\<close>
  | Plus cclass     \<comment> \<open>the class, greedy \<open>+\<close>\<close>
  | Bol             \<comment> \<open>\<open>^\<close>\<close>
  | Eol             \<comment> \<open>\<open>$\<close>\<close>
  | Open nat        \<comment> \<open>\<open>(\<close> of group n\<close>
  | Close nat       \<comment> \<open>\<open>)\<close> of group n\<close>

text \<open>
  \<open>rmatch items i rest ov\<close> matches the items against \<open>rest\<close>, the subject from
  offset \<open>i\<close> on; \<open>ov\<close> is the offset vector, where group \<open>n\<close> has its start at index
  \<open>2 * n\<close> and its end at index \<open>2 * n + 1\<close>.  A greedy quantifier first takes one more
  character and gives it back only when the rest of the pattern fails after it.
  \<open>^\<close> matches at offset 0 only (no \<open>PCRE_MULTILINE\<close>); \<open>$\<close> matches at the end of
  the subject and before a newline that is its last character (no
  \<open>PCRE_DOLLAR_ENDONLY\<close>).
\<close>

fun rmatch :: "item list \<Rightarrow> nat \<Rightarrow> string \<Rightarrow> nat list \<Rightarrow> nat list option" where
  "rmatch [] i rest ov = Some (ov[1 := i])"
| "rmatch (One c # r) i [] ov = None"
| "rmatch (One c # r) i (x # xs) ov =
     (if cmatch c x then rmatch r (Suc i) xs ov else None)"
| "rmatch (Star c # r) i [] ov = rmatch r i [] ov"
| "rmatch (Star c # r) i (x # xs) ov =
     (if cmatch c x
      then (case rmatch (Star c # r) (Suc i) xs ov of
              Some v \<Rightarrow> Some v
            | None \<Rightarrow> rmatch r i (x # xs) ov)
      else rmatch r i (x # xs) ov)"
| "rmatch (Plus c # r) i [] ov = None"
| "rmatch (Plus c # r) i (x # xs) ov =
     (if cmatch c x then rmatch (Star c # r) (Suc i) xs ov else None)"
| "rmatch (Bol # r) i rest ov = (if i = 0 then rmatch r i rest ov else None)"
| "rmatch (Eol # r) i rest ov =
     (if rest = [] \<or> rest = [NL] then rmatch r i rest ov else None)"
| "rmatch (Open n # r) i rest ov = rmatch r i rest (ov[2 * n := i])"
| "rmatch (Close n # r) i rest ov = rmatch r i rest (ov[2 * n + 1 := i])"

text \<open>
  \<open>pcre_exec\<close> tries the pattern at every start offset, from 0 on, and reports the first
  match; \<open>None\<close> is its negative return value (\<open>PCRE_ERROR_NOMATCH\<close>).  The offset
  vector has \<open>ovecsize\<close> entries.
\<close>

fun exec_from :: "item list \<Rightarrow> nat \<Rightarrow> string \<Rightarrow> nat list \<Rightarrow> nat list option" where
  "exec_from re i [] ov = rmatch re i [] (ov[0 := i])"
| "exec_from re i (x # xs) ov =
     (case rmatch re i (x # xs) (ov[0 := i]) of
        Some v \<Rightarrow> Some v
      | None \<Rightarrow> exec_from re (Suc i) xs ov)"

definition pcre_exec :: "item list \<Rightarrow> string \<Rightarrow> nat \<Rightarrow> nat list option" where
  "pcre_exec re subject ovecsize = exec_from re 0 subject (replicate ovecsize 0)"

text \<open>
  \<open>pcre_get_substring subject ov stringcount n\<close> copies group \<open>n\<close> out of the subject;
  \<open>None\<close> is \<open>PCRE_ERROR_NOSUBSTRING\<close>, returned when \<open>n\<close> is not below
  \<open>stringcount\<close>.
\<close>

definition pcre_get_substring :: "string \<Rightarrow> nat list \<Rightarrow> nat \<Rightarrow> nat \<Rightarrow> string option" where
  "pcre_get_substring subject ov stringcount n =
     (if stringcount \<le> n then None
      else Some (take (ov ! (2 * n + 1) - ov ! (2 * n)) (drop (ov ! (2 * n)) subject)))"

definition lits :: "string \<Rightarrow> item list" where
  "lits s = map (\<lambda>c. One (Lit c)) s"

text \<open>
  \<^verbatim>\<open>^\s*config\s+reference\s*:\s*([a-zA-Z][a-zA-Z0-9-_]*)\s+(.+)\s*$\<close>
\<close>

definition SC_RCONF_REGEX :: "item list" where
  "SC_RCONF_REGEX =
     [Bol, Star Space] @ lits ''config'' @ [Plus Space] @ lits ''reference'' @
     [Star Space, One (Lit (CHR '':'')), Star Space,
      Open 1, One Alpha, Star NameCh, Close 1,
      Plus Space,
      Open 2, Plus AnyCh, Close 2,
      Star Space, Eol]"

subsection \<open>References and the hash table\<close>

text \<open>
  \<open>SCRConfReference\<close> has the fields \<open>system\<close> and \<open>url\<close>; \<open>url\<close> is NULL in the
  instance that \<open>SCRConfGetReference\<close> builds to look a name up.
\<close>

record SCRConfReference =
  system :: string
  url :: "string option"

text \<open>
  Modelled from the spec: the hash table of util-hash.c (the type \<open>HashTable\<close> and the
  functions \<open>HashTableInit\<close>, \<open>HashTableLookup\<close>, \<open>HashTableAdd\<close>), which this file
  only calls.  The spec asks for an associative container with lookup by key, insertion and
  a count of the stored entries; the code of this file reads the fields \<open>array_size\<close> and
  \<open>count\<close> of the table and hands it a hash function and a comparison function.  The
  model is a table of \<open>array_size\<close> buckets, each a list of entries, with the number of
  insertions in \<open>count\<close>.
\<close>

record HashTable =
  array :: "SCRConfReference list list"
  array_size :: nat
  count :: nat

text \<open>
  Modelled from the spec: \<open>HashTableInit\<close> of util-hash.c, the empty table of the given
  size.  The hash function and the comparison function that the source passes here are
  arguments of the lookup and of the insertion in the model.
\<close>

definition HashTableInit :: "nat \<Rightarrow> HashTable" where
  "HashTableInit sz = \<lparr>array = replicate sz [], array_size = sz, count = 0\<rparr>"

text \<open>
  Modelled from the spec: \<open>HashTableLookup\<close> of util-hash.c.  The hash function selects the
  bucket; the lookup returns the first entry of that bucket that the comparison function
  reports equal (return value 1) to the probe, and NULL when there is none or the table is
  NULL.  The table is not changed.
\<close>

definition HashTableLookup ::
  "(HashTable \<Rightarrow> SCRConfReference \<Rightarrow> nat) \<Rightarrow> (SCRConfReference \<Rightarrow> SCRConfReference \<Rightarrow> int) \<Rightarrow>
   HashTable option \<Rightarrow> SCRConfReference \<Rightarrow> SCRConfReference option" where
  "HashTableLookup Hash Compare htp data =
     (case htp of
        None \<Rightarrow> None
      | Some ht \<Rightarrow>
          (let hash = Hash ht data in
           if array_size ht \<le> hash then None
           else find (\<lambda>e. Compare e data = 1) (array ht ! hash)))"

text \<open>
  Modelled from the spec: \<open>HashTableAdd\<close> of util-hash.c.  The insertion puts the entry in
  front of the bucket of its hash and increments \<open>count\<close>; it does not look for an equal
  entry, which is what \<open>SCRConfAddReference\<close> does before it inserts.  It returns \<open>-1\<close>
  for a NULL table or a hash outside the table.
\<close>

definition HashTableAdd ::
  "(HashTable \<Rightarrow> SCRConfReference \<Rightarrow> nat) \<Rightarrow>
   HashTable option \<Rightarrow> SCRConfReference \<Rightarrow> int \<times> HashTable option" where
  "HashTableAdd Hash htp data =
     (case htp of
        None \<Rightarrow> (-1, None)
      | Some ht \<Rightarrow>
          (let hash = Hash ht data in
           if array_size ht \<le> hash then (-1, Some ht)
           else (0, Some (ht\<lparr>array := (array ht)[hash := data # array ht ! hash],
                             count := count ht + 1\<rparr>))))"

text \<open>The part of the detection engine context that this file uses.\<close>

record DetectEngineCtx =
  reference_conf_ht :: "HashTable option"

subsection \<open>SCRConfStringToLowercase, SCRConfAllocSCRConfReference\<close>

definition SCRConfStringToLowercase :: "string \<Rightarrow> string" where
  "SCRConfStringToLowercase str = map tolower str"

definition SCRConfAllocSCRConfReference :: "string \<Rightarrow> string option \<Rightarrow> SCRConfReference" where
  "SCRConfAllocSCRConfReference sys u = \<lparr>system = SCRConfStringToLowercase sys, url = u\<rparr>"

subsection \<open>SCRConfReferenceHashFunc, SCRConfReferenceHashCompareFunc\<close>

text \<open>
  The hash is a \<open>uint32_t\<close> sum of the lowercased characters, reduced modulo the size of
  the table.
\<close>

definition SCRConfReferenceHashFunc :: "HashTable \<Rightarrow> SCRConfReference \<Rightarrow> nat" where
  "SCRConfReferenceHashFunc ht ref =
     foldl (\<lambda>hash c. (hash + of_char (tolower c)) mod 2 ^ 32) 0 (system ref) mod array_size ht"

text \<open>
  The comparison is \<open>len1 == len2 && memcmp(ref1->system, ref2->system, len1) == 0\<close>.
  Both references and their \<open>system\<close> strings are present in the model, so the NULL
  checks of the source have no branch here.
\<close>

definition SCRConfReferenceHashCompareFunc :: "SCRConfReference \<Rightarrow> SCRConfReference \<Rightarrow> int" where
  "SCRConfReferenceHashCompareFunc ref1 ref2 =
     (let len1 = length (system ref1); len2 = length (system ref2) in
      if len1 = len2 \<and> take len1 (system ref1) = take len1 (system ref2) then 1 else 0)"

subsection \<open>SCRConfAddReference\<close>

definition SCRConfAddReference :: "string \<Rightarrow> DetectEngineCtx \<Rightarrow> int \<times> DetectEngineCtx" where
  "SCRConfAddReference rawstr de_ctx =
     (case pcre_exec SC_RCONF_REGEX rawstr 30 of
        None \<Rightarrow> (-1, de_ctx)
      | Some ov \<Rightarrow>
          (case pcre_get_substring rawstr ov 30 1 of
             None \<Rightarrow> (-1, de_ctx)
           | Some sys \<Rightarrow>
               (case pcre_get_substring rawstr ov 30 2 of
                  None \<Rightarrow> (-1, de_ctx)
                | Some u \<Rightarrow>
                    (let ref_new = SCRConfAllocSCRConfReference sys (Some u) in
                     case HashTableLookup SCRConfReferenceHashFunc SCRConfReferenceHashCompareFunc
                            (reference_conf_ht de_ctx) ref_new of
                       None \<Rightarrow>
                         (0, de_ctx\<lparr>reference_conf_ht :=
                               snd (HashTableAdd SCRConfReferenceHashFunc
                                      (reference_conf_ht de_ctx) ref_new)\<rparr>)
                     | Some ref_lookup \<Rightarrow> (0, de_ctx)))))"

subsection \<open>SCRConfParseFile\<close>

text \<open>
  \<open>fgets(line, size, fd)\<close> returns NULL at the end of the file; otherwise it reads at
  most \<open>size - 1\<close> characters and stops after a newline.  The buffer is then read as a C
  string, which ends at its first NUL.
\<close>

fun fgets_buf :: "nat \<Rightarrow> string \<Rightarrow> string \<times> string" where
  "fgets_buf k [] = ([], [])"
| "fgets_buf k (c # s) =
     (if k = 0 then ([], c # s)
      else if c = NL then ([c], s)
      else (case fgets_buf (k - 1) s of (l, r) \<Rightarrow> (c # l, r)))"

definition fgets :: "nat \<Rightarrow> string \<Rightarrow> (string \<times> string) option" where
  "fgets sz fd = (if fd = [] then None else Some (fgets_buf (sz - 1) fd))"

definition c_str :: "string \<Rightarrow> string" where
  "c_str buf = takeWhile (\<lambda>c. c \<noteq> NUL) buf"

text \<open>
  The loop of the source; the counter \<open>i\<close> is written and never read, and the return
  value of \<open>SCRConfAddReference\<close> is dropped.
\<close>

function SCRConfParseFile :: "string \<Rightarrow> DetectEngineCtx \<Rightarrow> DetectEngineCtx" where
  "SCRConfParseFile fd de_ctx =
     (case fgets 1024 fd of
        None \<Rightarrow> de_ctx
      | Some (buf, fd') \<Rightarrow>
          (let line = c_str buf in
           if SCRConfIsLineBlankOrComment line \<noteq> 0 then SCRConfParseFile fd' de_ctx
           else SCRConfParseFile fd' (snd (SCRConfAddReference line de_ctx))))"
  by pat_completeness auto
termination
proof (relation "measure (\<lambda>(fd, de_ctx). length fd)")
  show "wf (measure (\<lambda>(fd, de_ctx). length fd))" by simp
next
  fix fd :: string and de_ctx :: DetectEngineCtx and x2 buf fd' line
  assume "fgets 1024 fd = Some x2" "(buf, fd') = x2"
  then have "fd \<noteq> []" "fd' = snd (fgets_buf 1023 fd)"
    by (auto simp: fgets_def split: if_splits)
  moreover have le: "length (snd (fgets_buf k s)) \<le> length s" for k s
    by (induction k s rule: fgets_buf.induct) (auto split: prod.splits)
  have "length (snd (fgets_buf k s)) < length s" if "0 < k" "s \<noteq> []" for k s
    using that le [of "k - 1" "tl s"] by (cases s) (auto split: prod.splits)
  ultimately have "length fd' < length fd"
    by simp
  then show "((fd', de_ctx), (fd, de_ctx)) \<in> measure (\<lambda>(fd, de_ctx). length fd)"
    by simp
  show "((fd', snd (SCRConfAddReference line de_ctx)), (fd, de_ctx))
         \<in> measure (\<lambda>(fd, de_ctx). length fd)"
    using \<open>length fd' < length fd\<close> by simp
qed

declare SCRConfParseFile.simps [simp del]

subsection \<open>SCRConfLoadReferenceConfigFile, SCRConfGetReference\<close>

text \<open>
  What \<open>SCRConfInitContextAndLocalResources\<close> meets outside this file: whether
  \<open>HashTableInit\<close> returns a table, the file-scope \<open>fd\<close> (set beforehand by the unit
  tests, NULL otherwise), what \<open>fopen\<close> returns for the configured path, whether
  \<open>pcre_compile\<close> returns a pattern, and whether \<open>pcre_study\<close> leaves its error
  message NULL.
\<close>

record environment =
  table_ok :: bool
  preset_fd :: "string option"
  fopen_result :: "string option"
  compile_ok :: bool
  study_ok :: bool

text \<open>
  Returns the return value, the context and the file-scope \<open>fd\<close>.  The error path frees
  the table and closes the file.
\<close>

definition SCRConfInitContextAndLocalResources ::
  "environment \<Rightarrow> DetectEngineCtx \<Rightarrow> int \<times> DetectEngineCtx \<times> string option" where
  "SCRConfInitContextAndLocalResources env de_ctx =
     (let error = (-1, de_ctx\<lparr>reference_conf_ht := None\<rparr>, None) in
      if \<not> table_ok env then error
      else
        (let de_ctx1 = de_ctx\<lparr>reference_conf_ht := Some (HashTableInit 128)\<rparr>;
             fd1 = (case preset_fd env of None \<Rightarrow> fopen_result env | Some f \<Rightarrow> Some f)
         in if fd1 = None then error
            else if \<not> compile_ok env then error
            else if \<not> study_ok env then error
            else (0, de_ctx1, fd1)))"

text \<open>
  The function either returns to its caller or ends the process with \<open>exit\<close>; reading
  from a NULL stream would be undefined behaviour, kept apart as \<open>Undefined\<close>.
\<close>

datatype 'a outcome = Returns 'a | Exits | Undefined

definition SCRConfLoadReferenceConfigFile ::
  "environment \<Rightarrow> DetectEngineCtx \<Rightarrow> (int \<times> DetectEngineCtx) outcome" where
  "SCRConfLoadReferenceConfigFile env de_ctx =
     (case SCRConfInitContextAndLocalResources env de_ctx of
        (r, de_ctx1, fd1) \<Rightarrow>
          if r = -1 then Exits
          else (case fd1 of
                  None \<Rightarrow> Undefined
                | Some f \<Rightarrow> Returns (0, SCRConfParseFile f de_ctx1)))"

definition SCRConfGetReference ::
  "string \<Rightarrow> DetectEngineCtx \<Rightarrow> SCRConfReference option \<times> DetectEngineCtx" where
  "SCRConfGetReference rconf_name de_ctx =
     (let ref_conf = SCRConfAllocSCRConfReference rconf_name None;
          lookup_ref_conf = HashTableLookup SCRConfReferenceHashFunc SCRConfReferenceHashCompareFunc
                              (reference_conf_ht de_ctx) ref_conf
      in (lookup_ref_conf, de_ctx))"

text \<open>
  The stream that the load reads: the file-scope \<open>fd\<close> when the caller has set it, the
  file that \<open>fopen\<close> returns otherwise.
\<close>

definition stream :: "environment \<Rightarrow> string option" where
  "stream env = (case preset_fd env of None \<Rightarrow> fopen_result env | Some f \<Rightarrow> Some f)"

text \<open>An environment where every step of the initialisation succeeds and the stream is \<open>src\<close>.\<close>

definition reading :: "string \<Rightarrow> environment" where
  "reading src =
     \<lparr>table_ok = True, preset_fd = Some src, fopen_result = None, compile_ok = True, study_ok = True\<rparr>"

subsection \<open>The streams of the unit tests\<close>




subsection \<open>Well-formed directive lines\<close>

text \<open>
  The inputs that the properties of the loader quantify over.  A directive line is
  \<open>config reference: NAME VALUE\<close> with any white space but a newline where the pattern
  allows white space, and a newline at its end: \<open>lead\<close> before \<open>config\<close>, \<open>sp1\<close>
  (not empty) before \<open>reference\<close>, \<open>sp2\<close> before the colon, \<open>sp3\<close> after it, \<open>sp4\<close>
  (not empty) between the name and the value.  The name is a letter followed by letters,
  digits, hyphens and underscores.  The value is the rest of the line: it starts with a
  character that is not white space and holds neither a newline nor a NUL.
\<close>

record directive =
  lead :: string
  sp1 :: string
  sp2 :: string
  sp3 :: string
  dname :: string
  sp4 :: string
  dvalue :: string

definition before_name :: "directive \<Rightarrow> string" where
  "before_name d = lead d @ ''config'' @ sp1 d @ ''reference'' @ sp2 d @ '':'' @ sp3 d"

definition body :: "directive \<Rightarrow> string" where
  "body d = before_name d @ dname d @ sp4 d @ dvalue d"

definition render :: "directive \<Rightarrow> string" where
  "render d = body d @ [NL]"

text \<open>A character that is neither the terminator of a C string nor the end of a line.\<close>

definition plain :: "char \<Rightarrow> bool" where
  "plain c \<longleftrightarrow> c \<noteq> NUL \<and> c \<noteq> NL"

definition blank :: "string \<Rightarrow> bool" where
  "blank w \<longleftrightarrow> list_all (\<lambda>c. pcre_space c \<and> c \<noteq> NL) w"

definition name_token :: "string \<Rightarrow> bool" where
  "name_token n \<longleftrightarrow> (case n of [] \<Rightarrow> False | a # nm \<Rightarrow> is_alpha a \<and> list_all (cmatch NameCh) nm)"

definition value_token :: "string \<Rightarrow> bool" where
  "value_token v \<longleftrightarrow>
     (case v of [] \<Rightarrow> False | a # _ \<Rightarrow> \<not> pcre_space a) \<and> list_all (\<lambda>c. c \<noteq> NL \<and> c \<noteq> NUL) v"

definition well_formed :: "directive \<Rightarrow> bool" where
  "well_formed d \<longleftrightarrow>
     blank (lead d) \<and> blank (sp1 d) \<and> sp1 d \<noteq> [] \<and> blank (sp2 d) \<and> blank (sp3 d) \<and>
     name_token (dname d) \<and> blank (sp4 d) \<and> sp4 d \<noteq> [] \<and> value_token (dvalue d)"

text \<open>
  The part of a line before the name is as the pattern wants it: white space (of any kind
  that \<open>\s\<close> accepts) around the two keywords and the colon.
\<close>

definition spaced :: "directive \<Rightarrow> bool" where
  "spaced d \<longleftrightarrow>
     list_all pcre_space (lead d) \<and> list_all pcre_space (sp1 d) \<and> sp1 d \<noteq> [] \<and>
     list_all pcre_space (sp2 d) \<and> list_all pcre_space (sp3 d)"

text \<open>
  The offset vector that \<open>pcre_exec\<close> fills for a well-formed line whose match ends at
  offset \<open>e\<close>: the whole match, the name (group 1) and the value (group 2).
\<close>

definition ov_of :: "directive \<Rightarrow> nat \<Rightarrow> nat list" where
  "ov_of d e =
     (let p = length (before_name d);
          q = p + length (dname d) + length (sp4 d)
      in (replicate 30 0)[0 := 0, 2 := p, 3 := p + length (dname d), 4 := q,
                          5 := q + length (dvalue d), 1 := e])"

text \<open>The keys and values of a list of directives, in the order of the lines.\<close>

definition keyvals :: "directive list \<Rightarrow> (string \<times> string) list" where
  "keyvals ds = map (\<lambda>d. (SCRConfStringToLowercase (dname d), dvalue d)) ds"

text \<open>The canonical line \<open>config reference: NAME VALUE\<close>.\<close>

definition canonical :: "string \<Rightarrow> string \<Rightarrow> directive" where
  "canonical n v =
     \<lparr>lead = [], sp1 = '' '', sp2 = [], sp3 = '' '', dname = n, sp4 = '' '', dvalue = v\<rparr>"

subsection \<open>Names up to case, lines of a source\<close>

text \<open>
  Two names are the same up to case when they have the same length and, position by
  position, the same character or the two cases of one letter of the ASCII alphabet.  The
  relation is written with the alphabet, not with the \<open>tolower\<close> of the code.
\<close>

definition same_letter :: "char \<Rightarrow> char \<Rightarrow> bool" where
  "same_letter a b \<longleftrightarrow>
     a = b \<or>
     (a, b) \<in> set (zip ''ABCDEFGHIJKLMNOPQRSTUVWXYZ'' ''abcdefghijklmnopqrstuvwxyz'') \<or>
     (b, a) \<in> set (zip ''ABCDEFGHIJKLMNOPQRSTUVWXYZ'' ''abcdefghijklmnopqrstuvwxyz'')"

definition same_name :: "string \<Rightarrow> string \<Rightarrow> bool" where
  "same_name a b \<longleftrightarrow> list_all2 same_letter a b"


text \<open>
  A well-formed directive of 1025 characters with its newline: the name \<open>one\<close> and a
  value of 1002 characters.
\<close>

definition long_directive :: directive where
  "long_directive = canonical ''one'' (replicate 1001 (CHR ''x'') @ ''x'')"


subsection \<open>The entries of a table and its invariant\<close>

text \<open>
  The entries of a table are the entries of all its buckets.  The invariant of a table that
  the loader has filled: there are \<open>array_size\<close> buckets, at least one; every entry is in
  the bucket of its hash; no two entries have the same \<open>system\<close>; \<open>count\<close> is the
  number of entries.
\<close>

definition entries :: "HashTable \<Rightarrow> SCRConfReference list" where
  "entries ht = concat (array ht)"

definition ht_inv :: "HashTable \<Rightarrow> bool" where
  "ht_inv ht \<longleftrightarrow>
     length (array ht) = array_size ht \<and> 0 < array_size ht \<and>
     (\<forall>h < array_size ht. \<forall>e \<in> set (array ht ! h). SCRConfReferenceHashFunc ht e = h) \<and>
     distinct (map system (entries ht)) \<and>
     count ht = length (entries ht)"

text \<open>The same for the table of a detection engine context; a NULL table has no entry.\<close>

definition ctx_entries :: "DetectEngineCtx \<Rightarrow> SCRConfReference list" where
  "ctx_entries de_ctx = (case reference_conf_ht de_ctx of None \<Rightarrow> [] | Some ht \<Rightarrow> entries ht)"

definition ctx_count :: "DetectEngineCtx \<Rightarrow> nat" where
  "ctx_count de_ctx = (case reference_conf_ht de_ctx of None \<Rightarrow> 0 | Some ht \<Rightarrow> count ht)"

definition ctx_inv :: "DetectEngineCtx \<Rightarrow> bool" where
  "ctx_inv de_ctx \<longleftrightarrow> (case reference_conf_ht de_ctx of None \<Rightarrow> False | Some ht \<Rightarrow> ht_inv ht)"

section \<open>Properties\<close>

subsection \<open>The line classifier\<close>

lemma isspace_hash: "\<not> isspace (CHR ''#'')"
  by (simp add: isspace_def)

lemma IsLineBlankOrComment_range:
  "SCRConfIsLineBlankOrComment line = 0 \<or> SCRConfIsLineBlankOrComment line = 1"
  by (induction line) auto

lemma IsLineBlankOrComment_spaces:
  "\<forall>c \<in> set pre. isspace c \<Longrightarrow>
   SCRConfIsLineBlankOrComment (pre @ rest) =
     (if CHR ''#'' \<in> set pre then 1 else SCRConfIsLineBlankOrComment rest)"
  by (induction pre) auto

lemma IsLineBlankOrComment_one:
  "SCRConfIsLineBlankOrComment line = 1 \<Longrightarrow>
   (\<forall>c \<in> set line. isspace c) \<or>
   (\<exists>pre rest. line = pre @ CHR ''#'' # rest \<and> (\<forall>c \<in> set pre. isspace c))"
proof (induction line)
  case Nil
  then show ?case by simp
next
  case (Cons c line)
  show ?case
  proof (cases "c = CHR ''#''")
    case True
    then have "c # line = [] @ CHR ''#'' # line \<and> (\<forall>c \<in> set []. isspace c)" by simp
    then show ?thesis by blast
  next
    case False
    with Cons.prems have sp: "isspace c" and r: "SCRConfIsLineBlankOrComment line = 1"
      by (auto split: if_splits)
    from Cons.IH [OF r] show ?thesis
    proof
      assume "\<forall>c \<in> set line. isspace c"
      with sp show ?thesis by simp
    next
      assume "\<exists>pre rest. line = pre @ CHR ''#'' # rest \<and> (\<forall>c \<in> set pre. isspace c)"
      then obtain pre rest where "line = pre @ CHR ''#'' # rest" "\<forall>c \<in> set pre. isspace c"
        by blast
      with sp have "c # line = (c # pre) @ CHR ''#'' # rest \<and> (\<forall>x \<in> set (c # pre). isspace x)"
        by simp
      then show ?thesis by blast
    qed
  qed
qed

lemma IsLineBlankOrComment_zero:
  "SCRConfIsLineBlankOrComment line = 0 \<Longrightarrow>
   \<exists>pre x rest. line = pre @ x # rest \<and> (\<forall>c \<in> set pre. isspace c) \<and>
                 \<not> isspace x \<and> x \<noteq> CHR ''#''"
proof (induction line)
  case Nil
  then show ?case by simp
next
  case (Cons c line)
  from Cons.prems have nh: "c \<noteq> CHR ''#''" by (auto split: if_splits)
  show ?case
  proof (cases "isspace c")
    case False
    with nh have "c # line = [] @ c # line \<and> (\<forall>c \<in> set []. isspace c) \<and>
                  \<not> isspace c \<and> c \<noteq> CHR ''#''" by simp
    then show ?thesis by blast
  next
    case True
    with nh Cons.prems have "SCRConfIsLineBlankOrComment line = 0" by simp
    from Cons.IH [OF this] obtain pre x rest where
      "line = pre @ x # rest" "\<forall>c \<in> set pre. isspace c" "\<not> isspace x" "x \<noteq> CHR ''#''"
      by blast
    with True have "c # line = (c # pre) @ x # rest \<and> (\<forall>y \<in> set (c # pre). isspace y) \<and>
                    \<not> isspace x \<and> x \<noteq> CHR ''#''" by simp
    then show ?thesis by blast
  qed
qed

text \<open>
  C5.  The classifier returns 1 exactly when every character of the line is white space or
  the first character that is not white space is \<open>#\<close>; it returns 0 exactly when the
  first character that is not white space is another character, whatever follows it; it
  returns nothing else.
\<close>

theorem C5_blank_or_comment:
  "(SCRConfIsLineBlankOrComment line = 1 \<longleftrightarrow>
      (\<forall>c \<in> set line. isspace c) \<or>
      (\<exists>pre rest. line = pre @ CHR ''#'' # rest \<and> (\<forall>c \<in> set pre. isspace c))) \<and>
   (SCRConfIsLineBlankOrComment line = 0 \<longleftrightarrow>
      (\<exists>pre x rest. line = pre @ x # rest \<and> (\<forall>c \<in> set pre. isspace c) \<and>
                     \<not> isspace x \<and> x \<noteq> CHR ''#'')) \<and>
   (SCRConfIsLineBlankOrComment line = 0 \<or> SCRConfIsLineBlankOrComment line = 1)"
proof (intro conjI iffI)
  assume "SCRConfIsLineBlankOrComment line = 1"
  then show "(\<forall>c \<in> set line. isspace c) \<or>
      (\<exists>pre rest. line = pre @ CHR ''#'' # rest \<and> (\<forall>c \<in> set pre. isspace c))"
    by (rule IsLineBlankOrComment_one)
next
  assume "(\<forall>c \<in> set line. isspace c) \<or>
      (\<exists>pre rest. line = pre @ CHR ''#'' # rest \<and> (\<forall>c \<in> set pre. isspace c))"
  then show "SCRConfIsLineBlankOrComment line = 1"
  proof
    assume "\<forall>c \<in> set line. isspace c"
    then show ?thesis
      using IsLineBlankOrComment_spaces [of line "[]"] by simp
  next
    assume "\<exists>pre rest. line = pre @ CHR ''#'' # rest \<and> (\<forall>c \<in> set pre. isspace c)"
    then show ?thesis
      by (auto simp: IsLineBlankOrComment_spaces)
  qed
next
  assume "SCRConfIsLineBlankOrComment line = 0"
  then show "\<exists>pre x rest. line = pre @ x # rest \<and> (\<forall>c \<in> set pre. isspace c) \<and>
                     \<not> isspace x \<and> x \<noteq> CHR ''#''"
    by (rule IsLineBlankOrComment_zero)
next
  assume "\<exists>pre x rest. line = pre @ x # rest \<and> (\<forall>c \<in> set pre. isspace c) \<and>
                     \<not> isspace x \<and> x \<noteq> CHR ''#''"
  then obtain pre x rest where l: "line = pre @ x # rest" and sp: "\<forall>c \<in> set pre. isspace c"
    and x: "\<not> isspace x" "x \<noteq> CHR ''#''" by blast
  from sp have "CHR ''#'' \<notin> set pre" using isspace_hash by blast
  with l sp x show "SCRConfIsLineBlankOrComment line = 0"
    by (simp add: IsLineBlankOrComment_spaces)
next
  show "SCRConfIsLineBlankOrComment line = 0 \<or> SCRConfIsLineBlankOrComment line = 1"
    by (rule IsLineBlankOrComment_range)
qed

theorem C5_blank_or_comment_witness:
  "SCRConfIsLineBlankOrComment '' # a comment'' = 1 \<and>
   SCRConfIsLineBlankOrComment ''  '' = 1 \<and>
   SCRConfIsLineBlankOrComment '' config # x'' = 0"
proof -
  have a: "'' # a comment'' = '' '' @ CHR ''#'' # '' a comment'' \<and> (\<forall>c \<in> set '' ''. isspace c)"
    by (simp add: isspace_def)
  have b: "\<forall>c \<in> set ''  ''. isspace c"
    by (simp add: isspace_def)
  have c: "'' config # x'' = '' '' @ CHR ''c'' # ''onfig # x'' \<and> (\<forall>c \<in> set '' ''. isspace c) \<and>
           \<not> isspace (CHR ''c'') \<and> CHR ''c'' \<noteq> CHR ''#''"
    by (simp add: isspace_def)
  from a have "SCRConfIsLineBlankOrComment '' # a comment'' = 1"
    using C5_blank_or_comment [of "'' # a comment''"] by blast
  moreover from b have "SCRConfIsLineBlankOrComment ''  '' = 1"
    using C5_blank_or_comment [of "''  ''"] by blast
  moreover from c have "SCRConfIsLineBlankOrComment '' config # x'' = 0"
    using C5_blank_or_comment [of "'' config # x''"] by blast
  ultimately show ?thesis by simp
qed

subsection \<open>The comparison function and the hash function\<close>

lemma tolower_idem: "tolower (tolower c) = tolower c"
proof -
  have "of_char (char_of (of_char c + 32 :: nat)) = (of_char c + 32 :: nat)"
    if "of_char c \<le> (90 :: nat)"
    using that by (simp add: of_char_of)
  then show ?thesis
    by (auto simp: tolower_def Let_def)
qed

lemma StringToLowercase_idem:
  "SCRConfStringToLowercase (SCRConfStringToLowercase str) = SCRConfStringToLowercase str"
  by (simp add: SCRConfStringToLowercase_def tolower_idem)

lemma HashCompareFunc_eq:
  "SCRConfReferenceHashCompareFunc ref1 ref2 = (if system ref1 = system ref2 then 1 else 0)"
  by (auto simp: SCRConfReferenceHashCompareFunc_def Let_def)

lemma hash_sum_lower:
  "foldl (\<lambda>hash c. (hash + of_char (tolower c)) mod m) h (map tolower str) =
   foldl (\<lambda>hash c. (hash + of_char (tolower c)) mod m) (h :: nat) str"
  by (induction str arbitrary: h) (simp_all add: tolower_idem)

lemma HashFunc_lower:
  "SCRConfReferenceHashFunc ht (SCRConfAllocSCRConfReference sys u) =
   SCRConfReferenceHashFunc ht \<lparr>system = sys, url = u'\<rparr>"
  by (simp add: SCRConfReferenceHashFunc_def SCRConfAllocSCRConfReference_def
      SCRConfStringToLowercase_def hash_sum_lower)

text \<open>
  C6, as the code has it.  The comparison function reports two references equal exactly
  when their \<open>system\<close> strings are the same characters, case included.  Two references
  built by \<open>SCRConfAllocSCRConfReference\<close>, the only way this file builds one, are
  reported equal exactly when the names they were built from are equal after
  lowercasing.  The hash function lowercases by itself: a name and its lowercased form
  have the same hash.
\<close>

theorem C6_compare_exact:
  "SCRConfReferenceHashCompareFunc ref1 ref2 = (if system ref1 = system ref2 then 1 else 0) \<and>
   SCRConfReferenceHashCompareFunc
       (SCRConfAllocSCRConfReference name1 u1) (SCRConfAllocSCRConfReference name2 u2) =
     (if map tolower name1 = map tolower name2 then 1 else 0) \<and>
   SCRConfReferenceHashFunc ht (SCRConfAllocSCRConfReference name1 u1) =
     SCRConfReferenceHashFunc ht \<lparr>system = name1, url = u1\<rparr>"
  by (simp add: HashCompareFunc_eq HashFunc_lower)
     (simp add: SCRConfAllocSCRConfReference_def SCRConfStringToLowercase_def)

theorem C6_compare_exact_witness:
  "SCRConfReferenceHashCompareFunc
       (SCRConfAllocSCRConfReference ''CVE'' None) (SCRConfAllocSCRConfReference ''cve'' (Some ''u'')) = 1"
proof -
  have "map tolower ''CVE'' = map tolower ''cve''"
    by (simp add: tolower_def char_of_eq_iff)
  then show ?thesis
    using C6_compare_exact [of "\<lparr>system = ''CVE'', url = None\<rparr>" "\<lparr>system = ''cve'', url = None\<rparr>"
        "''CVE''" None "''cve''" "Some ''u''"]
    by simp
qed

text \<open>
  The claim of C6 as the specification states it fails: the keys \<open>CVE\<close> and \<open>cve\<close> are
  equal up to case, and the comparison function reports the two references different.
\<close>

theorem C6_counterexample:
  "map tolower ''CVE'' = map tolower ''cve'' \<and>
   SCRConfReferenceHashCompareFunc \<lparr>system = ''CVE'', url = None\<rparr> \<lparr>system = ''cve'', url = None\<rparr> = 0"
  by (simp add: SCRConfReferenceHashCompareFunc_def tolower_def char_of_eq_iff)

subsection \<open>Return value of the load\<close>

lemma Init_result:
  "SCRConfInitContextAndLocalResources env de_ctx =
     (if table_ok env \<and> (preset_fd env \<noteq> None \<or> fopen_result env \<noteq> None) \<and>
         compile_ok env \<and> study_ok env
      then (0, de_ctx\<lparr>reference_conf_ht := Some (HashTableInit 128)\<rparr>,
            case preset_fd env of None \<Rightarrow> fopen_result env | Some f \<Rightarrow> Some f)
      else (-1, de_ctx\<lparr>reference_conf_ht := None\<rparr>, None))"
  by (auto simp: SCRConfInitContextAndLocalResources_def Let_def split: option.splits)

text \<open>
  C8.  When the load returns, it returns 0.  When the initialisation fails (no hash table,
  no stream and the file cannot be opened, the pattern does not compile, or the study of
  the pattern reports an error), the load ends the process.  It never reads from a NULL
  stream.
\<close>

theorem C8_load_returns_zero:
  "(SCRConfLoadReferenceConfigFile env de_ctx = Returns (r, de_ctx') \<longrightarrow> r = 0) \<and>
   (\<not> table_ok env \<or> (preset_fd env = None \<and> fopen_result env = None) \<or>
    \<not> compile_ok env \<or> \<not> study_ok env
      \<longrightarrow> SCRConfLoadReferenceConfigFile env de_ctx = Exits) \<and>
   (fst (SCRConfInitContextAndLocalResources env de_ctx) = -1
      \<longrightarrow> SCRConfLoadReferenceConfigFile env de_ctx = Exits) \<and>
   SCRConfLoadReferenceConfigFile env de_ctx \<noteq> Undefined"
  by (auto simp: SCRConfLoadReferenceConfigFile_def Init_result split: option.splits)

theorem C8_load_returns_zero_witness:
  "SCRConfLoadReferenceConfigFile
     \<lparr>table_ok = True, preset_fd = None, fopen_result = None, compile_ok = True, study_ok = True\<rparr>
     \<lparr>reference_conf_ht = None\<rparr> = Exits \<and>
   (\<exists>de_ctx'. SCRConfLoadReferenceConfigFile
     \<lparr>table_ok = True, preset_fd = Some [], fopen_result = None, compile_ok = True, study_ok = True\<rparr>
     \<lparr>reference_conf_ht = None\<rparr> = Returns (0, de_ctx'))"
proof -
  let ?bad = "\<lparr>table_ok = True, preset_fd = None, fopen_result = None,
               compile_ok = True, study_ok = True\<rparr>"
  let ?good = "\<lparr>table_ok = True, preset_fd = Some [], fopen_result = None,
                compile_ok = True, study_ok = True\<rparr>"
  have "SCRConfLoadReferenceConfigFile ?bad \<lparr>reference_conf_ht = None\<rparr> = Exits"
    using C8_load_returns_zero [of ?bad "\<lparr>reference_conf_ht = None\<rparr>"] by simp
  moreover obtain r de_ctx' where
    g: "SCRConfLoadReferenceConfigFile ?good \<lparr>reference_conf_ht = None\<rparr> = Returns (r, de_ctx')"
    by (simp add: SCRConfLoadReferenceConfigFile_def Init_result)
  then have "r = 0"
    using C8_load_returns_zero [of ?good "\<lparr>reference_conf_ht = None\<rparr>" r de_ctx'] by simp
  with g have "\<exists>de_ctx'. SCRConfLoadReferenceConfigFile ?good \<lparr>reference_conf_ht = None\<rparr>
                 = Returns (0, de_ctx')"
    by blast
  ultimately show ?thesis by simp
qed

subsection \<open>The lookup leaves the table as it is\<close>

text \<open>
  C10.  \<open>SCRConfGetReference\<close> returns the context that it was given: the table has the
  same buckets, the same entries in them and the same count.
\<close>

theorem C10_lookup_frame:
  "snd (SCRConfGetReference rconf_name de_ctx) = de_ctx \<and>
   reference_conf_ht (snd (SCRConfGetReference rconf_name de_ctx)) = reference_conf_ht de_ctx \<and>
   ctx_entries (snd (SCRConfGetReference rconf_name de_ctx)) = ctx_entries de_ctx \<and>
   ctx_count (snd (SCRConfGetReference rconf_name de_ctx)) = ctx_count de_ctx"
  by (simp add: SCRConfGetReference_def Let_def)

subsection \<open>The pattern on a well-formed line\<close>

lemma rmatch_lits:
  "rmatch (lits s @ r) i (s @ rest) ov = rmatch r (i + length s) rest ov"
  by (induction s arbitrary: i) (simp_all add: lits_def)

lemma rmatch_Star_stop:
  "rest = [] \<or> \<not> cmatch c (hd rest) \<Longrightarrow> rmatch (Star c # r) i rest ov = rmatch r i rest ov"
  by (cases rest) auto

lemma rmatch_Star_greedy:
  "\<forall>x \<in> set w. cmatch c x \<Longrightarrow> rmatch (Star c # r) (i + length w) rest ov = Some v \<Longrightarrow>
   rmatch (Star c # r) i (w @ rest) ov = Some v"
  by (induction w arbitrary: i) simp_all

lemma rmatch_Star_run:
  "\<forall>x \<in> set w. cmatch c x \<Longrightarrow> rest = [] \<or> \<not> cmatch c (hd rest) \<Longrightarrow>
   rmatch r (i + length w) rest ov = Some v \<Longrightarrow>
   rmatch (Star c # r) i (w @ rest) ov = Some v"
  by (rule rmatch_Star_greedy) (simp_all add: rmatch_Star_stop)

lemma rmatch_Plus_run:
  "w \<noteq> [] \<Longrightarrow> \<forall>x \<in> set w. cmatch c x \<Longrightarrow> rest = [] \<or> \<not> cmatch c (hd rest) \<Longrightarrow>
   rmatch r (i + length w) rest ov = Some v \<Longrightarrow>
   rmatch (Plus c # r) i (w @ rest) ov = Some v"
  using rmatch_Star_run [of "tl w" c rest r "Suc i" ov v]
  by (cases w) simp_all

lemma exec_from_Bol: "exec_from (Bol # r) (Suc i) rest ov = None"
  by (induction rest arbitrary: i) simp_all

lemma pcre_exec_Bol:
  "pcre_exec (Bol # r) subject n = rmatch r 0 subject ((replicate n 0)[0 := 0])"
  by (cases subject) (simp_all add: pcre_exec_def exec_from_Bol split: option.splits)

lemma blank_space: "blank w \<Longrightarrow> \<forall>x \<in> set w. cmatch Space x"
  by (simp add: blank_def list_all_iff)

lemma space_not_name: "pcre_space c \<Longrightarrow> \<not> cmatch NameCh c"
  by (auto simp: pcre_space_def is_alpha_def is_digit_def)

lemma alpha_not_space: "is_alpha c \<Longrightarrow> \<not> pcre_space c"
  by (auto simp: pcre_space_def is_alpha_def)

lemma tail_match:
  assumes v: "value_token v" and b: "blank w" and ne: "w \<noteq> []" and t: "t = [] \<or> t = [NL]"
  shows "rmatch [Plus Space, Open 2, Plus AnyCh, Close 2, Star Space, Eol] i (w @ v @ t) ov =
         Some (ov[4 := i + length w, 5 := i + length w + length v,
                  1 := i + length w + length v + length t])"
proof -
  let ?j = "i + length w"
  let ?ov4 = "ov[4 := ?j]"
  from v have vne: "v \<noteq> []" and vhd: "\<not> pcre_space (hd v)" and vall: "\<forall>x \<in> set v. cmatch AnyCh x"
    by (auto simp: value_token_def list_all_iff split: list.splits)
  from t have e: "rmatch [Close 2, Star Space, Eol] (?j + length v) t ?ov4 =
           Some (?ov4[5 := ?j + length v, 1 := ?j + length v + length t])"
    by (auto simp: pcre_space_def NL_def)
  from t have st: "t = [] \<or> \<not> cmatch AnyCh (hd t)" by auto
  have a: "rmatch [Plus AnyCh, Close 2, Star Space, Eol] ?j (v @ t) ?ov4 =
           Some (?ov4[5 := ?j + length v, 1 := ?j + length v + length t])"
    by (rule rmatch_Plus_run [OF vne vall st e])
  then have o: "rmatch [Open 2, Plus AnyCh, Close 2, Star Space, Eol] ?j (v @ t) ov =
           Some (?ov4[5 := ?j + length v, 1 := ?j + length v + length t])"
    by simp
  show ?thesis
    by (rule rmatch_Plus_run [OF ne blank_space [OF b] _ o]) (use vne vhd in \<open>cases v; simp\<close>)
qed

lemma name_match:
  assumes n: "name_token n" and r: "rest \<noteq> []" "pcre_space (hd rest)"
    and c: "rmatch r (i + length n) rest (ov[2 := i, 3 := i + length n]) = Some v"
  shows "rmatch (Open 1 # One Alpha # Star NameCh # Close 1 # r) i (n @ rest) ov = Some v"
proof -
  from n obtain a nm where nn: "n = a # nm" and a: "is_alpha a" and nm: "\<forall>x \<in> set nm. cmatch NameCh x"
    by (auto simp: name_token_def list_all_iff split: list.splits)
  from c nn have "rmatch (Close 1 # r) (Suc i + length nm) rest (ov[2 := i]) = Some v"
    by simp
  then have "rmatch (Star NameCh # Close 1 # r) (Suc i) (nm @ rest) (ov[2 := i]) = Some v"
    using r space_not_name [of "hd rest"] by (intro rmatch_Star_run [OF nm]) auto
  with a nn show ?thesis by simp
qed

lemma rmatch_lits_at:
  "j = i + length s \<Longrightarrow> rmatch r j rest ov = Some v \<Longrightarrow>
   rmatch (lits s @ r) i (s @ rest) ov = Some v"
  by (simp add: rmatch_lits)

lemma rmatch_Star_at:
  "\<forall>x \<in> set w. cmatch c x \<Longrightarrow> rest = [] \<or> \<not> cmatch c (hd rest) \<Longrightarrow> j = i + length w \<Longrightarrow>
   rmatch r j rest ov = Some v \<Longrightarrow> rmatch (Star c # r) i (w @ rest) ov = Some v"
  by (simp add: rmatch_Star_run)

lemma rmatch_Plus_at:
  "w \<noteq> [] \<Longrightarrow> \<forall>x \<in> set w. cmatch c x \<Longrightarrow> rest = [] \<or> \<not> cmatch c (hd rest) \<Longrightarrow>
   j = i + length w \<Longrightarrow> rmatch r j rest ov = Some v \<Longrightarrow>
   rmatch (Plus c # r) i (w @ rest) ov = Some v"
  by (simp add: rmatch_Plus_run)

lemma head_match:
  assumes b: "blank l" "blank s1" "s1 \<noteq> []" "blank s2" "blank s3"
    and r: "rest \<noteq> []" "\<not> pcre_space (hd rest)"
    and c: "rmatch r (length (l @ ''config'' @ s1 @ ''reference'' @ s2 @ '':'' @ s3)) rest ov = Some v"
  shows "rmatch ([Star Space] @ lits ''config'' @ [Plus Space] @ lits ''reference'' @
                 [Star Space, One (Lit (CHR '':'')), Star Space] @ r) 0
           (l @ ''config'' @ s1 @ ''reference'' @ s2 @ '':'' @ s3 @ rest) ov = Some v"
proof -
  define p1 where "p1 = length l"
  define p2 where "p2 = p1 + length ''config''"
  define p3 where "p3 = p2 + length s1"
  define p4 where "p4 = p3 + length ''reference''"
  define p5 where "p5 = p4 + length s2"
  define p6 where "p6 = p5 + length s3 + 1"
  have "p6 = length (l @ ''config'' @ s1 @ ''reference'' @ s2 @ '':'' @ s3)"
    by (simp add: p1_def p2_def p3_def p4_def p5_def p6_def)
  with c have 0: "rmatch r p6 rest ov = Some v" by simp
  have 1: "rmatch (Star Space # r) (Suc p5) (s3 @ rest) ov = Some v"
    using r by (intro rmatch_Star_at [OF blank_space [OF b(5)] _ _ 0]) (simp_all add: p6_def)
  then have 2: "rmatch (One (Lit (CHR '':'')) # Star Space # r) p5 ('':'' @ s3 @ rest) ov = Some v"
    by simp
  have 3: "rmatch (Star Space # One (Lit (CHR '':'')) # Star Space # r) p4
             (s2 @ '':'' @ s3 @ rest) ov = Some v"
    by (intro rmatch_Star_at [OF blank_space [OF b(4)] _ _ 2]) (simp_all add: pcre_space_def p5_def)
  have 4: "rmatch (lits ''reference'' @ Star Space # One (Lit (CHR '':'')) # Star Space # r)
             p3 (''reference'' @ s2 @ '':'' @ s3 @ rest) ov = Some v"
    by (rule rmatch_lits_at [OF _ 3]) (simp add: p4_def)
  have 5: "rmatch (Plus Space # lits ''reference'' @ Star Space # One (Lit (CHR '':'')) # Star Space # r)
             p2 (s1 @ ''reference'' @ s2 @ '':'' @ s3 @ rest) ov = Some v"
    by (intro rmatch_Plus_at [OF b(3) blank_space [OF b(2)] _ _ 4]) (simp_all add: pcre_space_def p3_def)
  have 6: "rmatch (lits ''config'' @ Plus Space # lits ''reference'' @ Star Space #
                   One (Lit (CHR '':'')) # Star Space # r)
             p1 (''config'' @ s1 @ ''reference'' @ s2 @ '':'' @ s3 @ rest) ov = Some v"
    by (rule rmatch_lits_at [OF _ 5]) (simp add: p2_def)
  have 7: "rmatch (Star Space # lits ''config'' @ Plus Space # lits ''reference'' @ Star Space #
                   One (Lit (CHR '':'')) # Star Space # r)
             0 (l @ ''config'' @ s1 @ ''reference'' @ s2 @ '':'' @ s3 @ rest) ov = Some v"
    by (intro rmatch_Star_at [OF blank_space [OF b(1)] _ _ 6]) (simp_all add: pcre_space_def p1_def)
  then show ?thesis by simp
qed

lemma pcre_exec_well_formed:
  assumes wf: "well_formed d" and t: "t = [] \<or> t = [NL]"
  shows "pcre_exec SC_RCONF_REGEX (body d @ t) 30 = Some (ov_of d (length (body d @ t)))"
proof -
  let ?p = "length (before_name d)"
  let ?init = "(replicate 30 0)[0 := 0]"
  let ?tl = "[Plus Space, Open 2, Plus AnyCh, Close 2, Star Space, Eol]"
  let ?re = "[Star Space] @ lits ''config'' @ [Plus Space] @ lits ''reference'' @
                 [Star Space, One (Lit (CHR '':'')), Star Space] @
                 (Open 1 # One Alpha # Star NameCh # Close 1 # ?tl)"
  let ?rest = "dname d @ sp4 d @ dvalue d @ t"
  let ?fin = "ov_of d (length (body d @ t))"
  from wf have b: "blank (lead d)" "blank (sp1 d)" "sp1 d \<noteq> []" "blank (sp2 d)" "blank (sp3 d)"
    and n: "name_token (dname d)" and b4: "blank (sp4 d)" "sp4 d \<noteq> []" and v: "value_token (dvalue d)"
    by (simp_all add: well_formed_def)
  from n have nne: "dname d \<noteq> []" and nhd: "\<not> pcre_space (hd (dname d))"
    by (auto simp: name_token_def alpha_not_space split: list.splits)
  from nne nhd have r: "?rest \<noteq> []" "\<not> pcre_space (hd ?rest)"
    by simp_all
  from b4 have s4: "pcre_space (hd (sp4 d))"
    by (cases "sp4 d") (simp_all add: blank_def)
  have t': "rmatch ?tl (?p + length (dname d)) (sp4 d @ dvalue d @ t)
             (?init[2 := ?p, 3 := ?p + length (dname d)]) = Some ?fin"
    by (simp only: tail_match [OF v b4 t]) (simp add: ov_of_def body_def Let_def add.assoc)
  have m: "rmatch (Open 1 # One Alpha # Star NameCh # Close 1 # ?tl) ?p ?rest ?init = Some ?fin"
    using b4 s4 by (intro name_match [OF n _ _ t']) simp_all
  have h: "rmatch ?re 0
             (lead d @ ''config'' @ sp1 d @ ''reference'' @ sp2 d @ '':'' @ sp3 d @ ?rest) ?init =
           Some ?fin"
    by (rule head_match [OF b r m [unfolded before_name_def]])
  have re: "SC_RCONF_REGEX = Bol # ?re"
    by (simp add: SC_RCONF_REGEX_def)
  have rd: "body d @ t =
            lead d @ ''config'' @ sp1 d @ ''reference'' @ sp2 d @ '':'' @ sp3 d @ ?rest"
    by (simp add: body_def before_name_def)
  have "pcre_exec (Bol # ?re) (body d @ t) 30 = rmatch ?re 0 (body d @ t) ?init"
    by (rule pcre_exec_Bol)
  with h show ?thesis
    by (simp only: re rd)
qed

lemma substrings_well_formed:
  "pcre_get_substring (body d @ t) (ov_of d e) 30 1 = Some (dname d)"
  "pcre_get_substring (body d @ t) (ov_of d e) 30 2 = Some (dvalue d)"
proof -
  have "drop (length (before_name d)) (body d @ t) = dname d @ sp4 d @ dvalue d @ t"
    by (simp add: body_def)
  then show "pcre_get_substring (body d @ t) (ov_of d e) 30 1 = Some (dname d)"
    by (simp add: pcre_get_substring_def ov_of_def Let_def)
  have "drop (length (before_name d) + length (dname d) + length (sp4 d)) (body d @ t) =
        dvalue d @ t"
    by (simp add: body_def)
  then show "pcre_get_substring (body d @ t) (ov_of d e) 30 2 = Some (dvalue d)"
    by (simp add: pcre_get_substring_def ov_of_def Let_def)
qed

subsection \<open>The hash table keeps its invariant\<close>

lemma set_concat_bucket:
  "h < length xss \<Longrightarrow> set (concat (xss[h := x # xss ! h])) = insert x (set (concat xss))"
proof (induction xss arbitrary: h)
  case Nil
  then show ?case by simp
next
  case (Cons ys yss)
  then show ?case by (cases h) auto
qed

lemma length_concat_bucket:
  "h < length xss \<Longrightarrow> length (concat (xss[h := x # xss ! h])) = Suc (length (concat xss))"
proof (induction xss arbitrary: h)
  case Nil
  then show ?case by simp
next
  case (Cons ys yss)
  then show ?case by (cases h) auto
qed

lemma distinct_concat_bucket:
  "h < length xss \<Longrightarrow> distinct (map f (concat xss)) \<Longrightarrow> f x \<notin> f ` set (concat xss) \<Longrightarrow>
   distinct (map f (concat (xss[h := x # xss ! h])))"
proof (induction xss arbitrary: h)
  case Nil
  then show ?case by simp
next
  case (Cons ys yss)
  show ?case
  proof (cases h)
    case 0
    with Cons.prems show ?thesis by auto
  next
    case (Suc k)
    with Cons.prems have k: "k < length yss" by simp
    from Cons.prems have d: "distinct (map f (concat yss))" and nx: "f x \<notin> f ` set (concat yss)"
      by auto
    have "distinct (map f (concat (yss[k := x # yss ! k])))"
      by (rule Cons.IH [OF k d nx])
    moreover have "set (concat (yss[k := x # yss ! k])) = insert x (set (concat yss))"
      by (rule set_concat_bucket [OF k])
    moreover from Cons.prems have "distinct (map f ys)" "f ` set ys \<inter> f ` set (concat yss) = {}"
      "f x \<notin> f ` set ys"
      by auto
    ultimately show ?thesis
      using Suc by (simp del: set_concat)
  qed
qed

lemma bucket_subset:
  assumes "h < length xss"
  shows "set (xss ! h) \<subseteq> set (concat xss)"
proof -
  from assms have "xss ! h \<in> set xss" by (rule nth_mem)
  then show ?thesis by auto
qed

lemma in_concat_bucket:
  assumes "e \<in> set (concat xss)"
  shows "\<exists>h < length xss. e \<in> set (xss ! h)"
proof -
  from assms obtain ys where ys: "ys \<in> set xss" "e \<in> set ys" by auto
  from ys(1) obtain h where "h < length xss" "xss ! h = ys"
    by (auto simp: in_set_conv_nth)
  with ys(2) show ?thesis by blast
qed

lemma HashFunc_system:
  "system e = system e' \<Longrightarrow> SCRConfReferenceHashFunc ht e = SCRConfReferenceHashFunc ht e'"
  by (simp add: SCRConfReferenceHashFunc_def)

lemma HashFunc_less: "0 < array_size ht \<Longrightarrow> SCRConfReferenceHashFunc ht e < array_size ht"
  by (simp add: SCRConfReferenceHashFunc_def)

lemma HashFunc_array [simp]:
  "SCRConfReferenceHashFunc (ht\<lparr>array := a, count := c\<rparr>) e = SCRConfReferenceHashFunc ht e"
  by (simp add: SCRConfReferenceHashFunc_def)

lemma Lookup_Some_iff:
  assumes inv: "ht_inv ht"
  shows "HashTableLookup SCRConfReferenceHashFunc SCRConfReferenceHashCompareFunc (Some ht) p = Some e \<longleftrightarrow> e \<in> set (entries ht) \<and> system e = system p"
proof -
  let ?h = "SCRConfReferenceHashFunc ht p"
  let ?P = "\<lambda>e. SCRConfReferenceHashCompareFunc e p = 1"
  from inv have len: "length (array ht) = array_size ht" and pos: "0 < array_size ht"
    and place: "\<forall>h < array_size ht. \<forall>e \<in> set (array ht ! h). SCRConfReferenceHashFunc ht e = h"
    and dist: "distinct (map system (entries ht))"
    by (simp_all add: ht_inv_def)
  have h: "?h < array_size ht" by (rule HashFunc_less [OF pos])
  have lk: "HashTableLookup SCRConfReferenceHashFunc SCRConfReferenceHashCompareFunc (Some ht) p = find ?P (array ht ! ?h)"
    using h by (simp add: HashTableLookup_def Let_def)
  have P: "?P e' \<longleftrightarrow> system e' = system p" for e'
    by (simp add: HashCompareFunc_eq)
  show ?thesis
  proof
    assume "HashTableLookup SCRConfReferenceHashFunc SCRConfReferenceHashCompareFunc (Some ht) p = Some e"
    with lk have "find ?P (array ht ! ?h) = Some e" by simp
    then have "e \<in> set (array ht ! ?h)" "?P e"
      by (auto simp: find_Some_iff)
    with h len bucket_subset [of ?h "array ht"] P show "e \<in> set (entries ht) \<and> system e = system p"
      by (auto simp: entries_def)
  next
    assume a: "e \<in> set (entries ht) \<and> system e = system p"
    then obtain j where j: "j < length (array ht)" "e \<in> set (array ht ! j)"
      using in_concat_bucket [of e "array ht"] by (auto simp: entries_def)
    with place len have "SCRConfReferenceHashFunc ht e = j" by simp
    with a have "j = ?h" using HashFunc_system [of e p ht] by simp
    with j a P have "\<exists>x \<in> set (array ht ! ?h). ?P x" by blast
    then obtain e' where f: "find ?P (array ht ! ?h) = Some e'"
      by (cases "find ?P (array ht ! ?h)") (auto simp: find_None_iff)
    then have "e' \<in> set (array ht ! ?h)" "?P e'"
      by (auto simp: find_Some_iff)
    with h len bucket_subset [of ?h "array ht"] P
    have "e' \<in> set (entries ht)" "system e' = system e"
      using a by (auto simp: entries_def)
    moreover from dist have "inj_on system (set (entries ht))"
      by (simp add: distinct_map)
    ultimately have "e' = e"
      using a by (blast dest: inj_onD)
    with f lk show "HashTableLookup SCRConfReferenceHashFunc SCRConfReferenceHashCompareFunc (Some ht) p = Some e" by simp
  qed
qed

lemma Lookup_None_iff:
  assumes inv: "ht_inv ht"
  shows "HashTableLookup SCRConfReferenceHashFunc SCRConfReferenceHashCompareFunc (Some ht) p = None \<longleftrightarrow> system p \<notin> system ` set (entries ht)"
proof -
  have "(\<exists>e. HashTableLookup SCRConfReferenceHashFunc SCRConfReferenceHashCompareFunc (Some ht) p = Some e) \<longleftrightarrow> (\<exists>e. e \<in> set (entries ht) \<and> system e = system p)"
    by (simp only: Lookup_Some_iff [OF inv])
  also have "\<dots> \<longleftrightarrow> system p \<in> system ` set (entries ht)"
  proof
    assume "\<exists>e. e \<in> set (entries ht) \<and> system e = system p"
    then obtain e where e: "e \<in> set (entries ht)" "system e = system p" by blast
    from e(2) have "system p = system e" by (rule sym)
    then show "system p \<in> system ` set (entries ht)" using e(1) by (rule image_eqI)
  next
    assume "system p \<in> system ` set (entries ht)"
    then obtain e where e: "system p = system e" "e \<in> set (entries ht)" by (rule imageE)
    from e(1) have "system e = system p" by (rule sym)
    with e(2) show "\<exists>e. e \<in> set (entries ht) \<and> system e = system p" by blast
  qed
  finally show ?thesis
    by (cases "HashTableLookup SCRConfReferenceHashFunc SCRConfReferenceHashCompareFunc (Some ht) p") simp_all
qed

lemma Add_inv:
  assumes inv: "ht_inv ht" and new: "system r \<notin> system ` set (entries ht)"
  shows "\<exists>ht'. HashTableAdd SCRConfReferenceHashFunc (Some ht) r = (0, Some ht') \<and> ht_inv ht' \<and>
           set (entries ht') = insert r (set (entries ht)) \<and> array_size ht' = array_size ht"
proof -
  let ?h = "SCRConfReferenceHashFunc ht r"
  let ?a = "(array ht)[?h := r # array ht ! ?h]"
  let ?ht = "ht\<lparr>array := ?a, count := count ht + 1\<rparr>"
  from inv have len: "length (array ht) = array_size ht" and pos: "0 < array_size ht"
    and place: "\<forall>h < array_size ht. \<forall>e \<in> set (array ht ! h). SCRConfReferenceHashFunc ht e = h"
    and dist: "distinct (map system (entries ht))"
    and cnt: "count ht = length (entries ht)"
    by (simp_all add: ht_inv_def)
  have h: "?h < length (array ht)" using len HashFunc_less [OF pos] by simp
  have add: "HashTableAdd SCRConfReferenceHashFunc (Some ht) r = (0, Some ?ht)"
    using h len by (simp add: HashTableAdd_def Let_def)
  have e: "entries ?ht = concat ?a"
    by (simp add: entries_def)
  have "set (concat ?a) = insert r (set (concat (array ht)))"
    by (rule set_concat_bucket [OF h])
  then have s: "set (entries ?ht) = insert r (set (entries ht))"
    by (simp only: e) (simp only: entries_def)
  have "distinct (map system (concat ?a))"
    using dist new unfolding entries_def by (rule distinct_concat_bucket [OF h])
  then have d: "distinct (map system (entries ?ht))"
    by (simp only: e)
  have lc: "length (concat ?a) = Suc (length (concat (array ht)))"
    by (rule length_concat_bucket [OF h])
  have c: "count ?ht = length (entries ?ht)"
    by (simp only: e lc) (simp add: cnt entries_def)
  have p: "\<forall>j < array_size ?ht. \<forall>x \<in> set (array ?ht ! j). SCRConfReferenceHashFunc ?ht x = j"
  proof (intro allI impI ballI)
    fix j x
    assume j: "j < array_size ?ht" and x: "x \<in> set (array ?ht ! j)"
    from j have j': "j < array_size ht" by simp
    from x have x': "x \<in> set (?a ! j)" by simp
    have "SCRConfReferenceHashFunc ht x = j"
    proof (cases "j = ?h")
      case True
      with x' h have "x = r \<or> x \<in> set (array ht ! j)" by simp
      with True j' place show ?thesis by auto
    next
      case False
      with x' have "x \<in> set (array ht ! j)" by simp
      with j' place show ?thesis by simp
    qed
    then show "SCRConfReferenceHashFunc ?ht x = j" by simp
  qed
  have "ht_inv ?ht"
    unfolding ht_inv_def
  proof (intro conjI)
    show "length (array ?ht) = array_size ?ht" using len by simp
    show "0 < array_size ?ht" using pos by simp
    show "\<forall>j < array_size ?ht. \<forall>x \<in> set (array ?ht ! j). SCRConfReferenceHashFunc ?ht x = j"
      by (rule p)
    show "distinct (map system (entries ?ht))" by (rule d)
    show "count ?ht = length (entries ?ht)" by (rule c)
  qed
  moreover have "array_size ?ht = array_size ht" by simp
  ultimately show ?thesis using add s by blast
qed

subsection \<open>SCRConfAddReference and the loop keep the invariant\<close>

lemma AddReference_nomatch:
  "pcre_exec SC_RCONF_REGEX rawstr 30 = None \<Longrightarrow> SCRConfAddReference rawstr de_ctx = (-1, de_ctx)"
  by (simp add: SCRConfAddReference_def)

lemma Alloc_system [simp]:
  "system (SCRConfAllocSCRConfReference n u) = SCRConfStringToLowercase n"
  "url (SCRConfAllocSCRConfReference n u) = u"
  by (simp_all add: SCRConfAllocSCRConfReference_def)

lemma AddReference_match:
  assumes inv: "ctx_inv de_ctx"
    and m: "pcre_exec SC_RCONF_REGEX rawstr 30 = Some ov"
    and n: "pcre_get_substring rawstr ov 30 1 = Some n"
    and u: "pcre_get_substring rawstr ov 30 2 = Some u"
  shows "fst (SCRConfAddReference rawstr de_ctx) = 0 \<and>
         ctx_inv (snd (SCRConfAddReference rawstr de_ctx)) \<and>
         set (ctx_entries (snd (SCRConfAddReference rawstr de_ctx))) =
           (if SCRConfStringToLowercase n \<in> system ` set (ctx_entries de_ctx)
            then set (ctx_entries de_ctx)
            else insert (SCRConfAllocSCRConfReference n (Some u)) (set (ctx_entries de_ctx)))"
proof -
  let ?r = "SCRConfAllocSCRConfReference n (Some u)"
  from inv obtain ht where ht: "reference_conf_ht de_ctx = Some ht" and hinv: "ht_inv ht"
    by (auto simp: ctx_inv_def split: option.splits)
  from ht have ent: "ctx_entries de_ctx = entries ht" by (simp add: ctx_entries_def)
  show ?thesis
  proof (cases "HashTableLookup SCRConfReferenceHashFunc SCRConfReferenceHashCompareFunc (Some ht) ?r")
    case None
    then have new: "system ?r \<notin> system ` set (entries ht)"
      using Lookup_None_iff [OF hinv, of ?r] by simp
    from Add_inv [OF hinv new] obtain ht' where
      a: "HashTableAdd SCRConfReferenceHashFunc (Some ht) ?r = (0, Some ht')" and
      i: "ht_inv ht'" and s: "set (entries ht') = insert ?r (set (entries ht))"
      by blast
    have r: "SCRConfAddReference rawstr de_ctx = (0, de_ctx\<lparr>reference_conf_ht := Some ht'\<rparr>)"
      using m n u ht None a by (simp add: SCRConfAddReference_def Let_def)
    from new have "SCRConfStringToLowercase n \<notin> system ` set (ctx_entries de_ctx)"
      by (simp add: ent)
    with r i s ent show ?thesis
      by (simp add: ctx_inv_def ctx_entries_def)
  next
    case (Some e)
    then have "system ?r \<in> system ` set (entries ht)"
      using Lookup_None_iff [OF hinv, of ?r] by simp
    then have old: "SCRConfStringToLowercase n \<in> system ` set (ctx_entries de_ctx)"
      by (simp add: ent)
    have r: "SCRConfAddReference rawstr de_ctx = (0, de_ctx)"
      using m n u ht Some by (simp add: SCRConfAddReference_def Let_def)
    with old inv show ?thesis by simp
  qed
qed




subsection \<open>The loop on a well-formed line\<close>

lemma fgets_buf_line:
  "NL \<notin> set l \<Longrightarrow> length l < k \<Longrightarrow> fgets_buf k (l @ NL # rest) = (l @ [NL], rest)"
proof (induction l arbitrary: k)
  case Nil
  then show ?case by simp
next
  case (Cons c l)
  then have "fgets_buf (k - 1) (l @ NL # rest) = (l @ [NL], rest)"
    by (intro Cons.IH) auto
  with Cons.prems show ?case by auto
qed

lemma fgets_line:
  "NL \<notin> set l \<Longrightarrow> length l < 1023 \<Longrightarrow> fgets 1024 (l @ NL # rest) = Some (l @ [NL], rest)"
  by (simp add: fgets_def fgets_buf_line)

lemma fgets_buf_full:
  "NL \<notin> set (take k s) \<Longrightarrow> fgets_buf k s = (take k s, drop k s)"
proof (induction k s rule: fgets_buf.induct)
  case (1 k)
  then show ?case by simp
next
  case (2 k c s)
  show ?case
  proof (cases "k = 0")
    case True
    then show ?thesis by simp
  next
    case False
    then obtain k' where k: "k = Suc k'" by (cases k) auto
    with "2.prems" have c: "c \<noteq> NL" and r: "NL \<notin> set (take k' s)" by auto
    from "2.IH" [OF False c] r k have "fgets_buf k' s = (take k' s, drop k' s)" by simp
    with k c show ?thesis by simp
  qed
qed

lemma fgets_long:
  assumes "NL \<notin> set l" "1023 \<le> length l"
  shows "fgets 1024 (l @ NL # rest) = Some (take 1023 l, drop 1023 l @ NL # rest)"
proof -
  from assms(2) have ne: "l @ NL # rest \<noteq> []" by simp
  from assms have "NL \<notin> set (take 1023 (l @ NL # rest))"
    by (auto dest: in_set_takeD)
  from fgets_buf_full [OF this] assms(2) ne show ?thesis
    by (simp add: fgets_def)
qed

lemma c_str_id: "NUL \<notin> set s \<Longrightarrow> c_str s = s"
  by (auto simp: c_str_def)

lemma space_chars: "pcre_space c \<Longrightarrow> isspace c \<and> c \<noteq> NUL \<and> c \<noteq> CHR ''#''"
  by (auto simp: pcre_space_def isspace_def NUL_def)

lemma name_chars: "cmatch NameCh c \<Longrightarrow> plain c"
  by (auto simp: is_alpha_def is_digit_def NUL_def NL_def plain_def)

lemma alpha_chars: "is_alpha c \<Longrightarrow> plain c"
  by (auto simp: is_alpha_def NUL_def NL_def plain_def)

lemma blank_chars: "blank w \<Longrightarrow> list_all (\<lambda>c. isspace c \<and> c \<noteq> CHR ''#'') w"
  by (auto simp: blank_def list_all_iff dest: space_chars)

lemma blank_plain: "blank w \<Longrightarrow> list_all plain w"
  by (auto simp: blank_def list_all_iff plain_def dest: space_chars)

lemma name_token_plain: "name_token n \<Longrightarrow> list_all plain n"
  by (cases n) (auto simp: name_token_def list_all_iff is_alpha_def is_digit_def plain_def NUL_def NL_def)

lemma value_token_plain: "value_token v \<Longrightarrow> list_all plain v"
  by (auto simp: value_token_def list_all_iff plain_def)

lemma body_plain:
  assumes "well_formed d"
  shows "list_all plain (body d)"
proof -
  from assms have b: "blank (lead d)" "blank (sp1 d)" "blank (sp2 d)" "blank (sp3 d)" "blank (sp4 d)"
    and n: "name_token (dname d)" and v: "value_token (dvalue d)"
    by (simp_all add: well_formed_def)
  have "list_all plain ''config''" "list_all plain ''reference''" "list_all plain '':''"
    by (simp_all add: plain_def NUL_def NL_def)
  with b [THEN blank_plain] name_token_plain [OF n] value_token_plain [OF v]
  show ?thesis
    by (simp only: body_def before_name_def list_all_append)
qed

lemma body_chars:
  assumes "well_formed d"
  shows "NUL \<notin> set (body d)" "NL \<notin> set (body d)"
  using body_plain [OF assms] by (auto simp: list_all_iff plain_def)

lemma classify_well_formed:
  assumes "well_formed d"
  shows "SCRConfIsLineBlankOrComment (body d @ t) = 0"
proof -
  from assms have "blank (lead d)" by (simp add: well_formed_def)
  then have l: "\<forall>c \<in> set (lead d). isspace c" and h: "CHR ''#'' \<notin> set (lead d)"
    using blank_chars [of "lead d"] by (auto simp: list_all_iff)
  have "body d @ t = lead d @ (''config'' @ sp1 d @ ''reference'' @ sp2 d @ '':'' @ sp3 d @
          dname d @ sp4 d @ dvalue d @ t)"
    by (simp add: body_def before_name_def)
  then show ?thesis
    using h by (simp only: IsLineBlankOrComment_spaces [OF l]) (simp add: isspace_def)
qed

lemma AddReference_well_formed:
  assumes inv: "ctx_inv de_ctx" and wf: "well_formed d" and t: "t = [] \<or> t = [NL]"
  shows "ctx_inv (snd (SCRConfAddReference (body d @ t) de_ctx)) \<and>
         set (ctx_entries (snd (SCRConfAddReference (body d @ t) de_ctx))) =
           (if SCRConfStringToLowercase (dname d) \<in> system ` set (ctx_entries de_ctx)
            then set (ctx_entries de_ctx)
            else insert (SCRConfAllocSCRConfReference (dname d) (Some (dvalue d)))
                   (set (ctx_entries de_ctx)))"
  using AddReference_match [OF inv pcre_exec_well_formed [OF wf t] substrings_well_formed]
  by simp

lemma ParseFile_Nil: "SCRConfParseFile [] de_ctx = de_ctx"
  by (subst SCRConfParseFile.simps) (simp add: fgets_def)

lemma ParseFile_step:
  "fgets 1024 fd = Some (buf, fd') \<Longrightarrow>
   SCRConfParseFile fd de_ctx =
     (if SCRConfIsLineBlankOrComment (c_str buf) \<noteq> 0 then SCRConfParseFile fd' de_ctx
      else SCRConfParseFile fd' (snd (SCRConfAddReference (c_str buf) de_ctx)))"
  by (subst SCRConfParseFile.simps) (simp add: Let_def)

lemma ParseFile_line:
  assumes "NL \<notin> set l" "NUL \<notin> set l" "length l < 1023"
  shows "SCRConfParseFile (l @ NL # rest) de_ctx =
         (if SCRConfIsLineBlankOrComment (l @ [NL]) \<noteq> 0 then SCRConfParseFile rest de_ctx
          else SCRConfParseFile rest (snd (SCRConfAddReference (l @ [NL]) de_ctx)))"
proof -
  from assms have "c_str (l @ [NL]) = l @ [NL]"
    by (intro c_str_id) (simp add: NUL_def NL_def)
  with assms show ?thesis
    by (subst SCRConfParseFile.simps) (simp add: fgets_line Let_def)
qed

lemma ParseFile_NL: "SCRConfParseFile (NL # rest) de_ctx = SCRConfParseFile rest de_ctx"
  using ParseFile_line [of "[]" rest de_ctx] by (simp add: isspace_def NL_def)

lemma AddReference_render:
  assumes wf: "well_formed d"
  shows "SCRConfAddReference (body d) de_ctx = SCRConfAddReference (render d) de_ctx"
proof -
  from pcre_exec_well_formed [OF wf, of "[]"]
  have a: "pcre_exec SC_RCONF_REGEX (body d) 30 = Some (ov_of d (length (body d)))" by simp
  from pcre_exec_well_formed [OF wf, of "[NL]"]
  have b: "pcre_exec SC_RCONF_REGEX (body d @ [NL]) 30 = Some (ov_of d (length (body d @ [NL])))"
    by simp
  from substrings_well_formed [of d "[]"]
  have c: "pcre_get_substring (body d) (ov_of d e) 30 1 = Some (dname d)"
    "pcre_get_substring (body d) (ov_of d e) 30 2 = Some (dvalue d)" for e
    by simp_all
  show ?thesis
    by (simp only: SCRConfAddReference_def render_def a b c substrings_well_formed option.case)
qed

lemma ParseFile_well_formed:
  assumes wf: "well_formed d" and len: "length (body d) \<le> 1023"
  shows "SCRConfParseFile (render d @ rest) de_ctx =
         SCRConfParseFile rest (snd (SCRConfAddReference (render d) de_ctx))"
proof (cases "length (body d) < 1023")
  case True
  have c: "SCRConfIsLineBlankOrComment (body d @ [NL]) = 0"
    by (rule classify_well_formed [OF wf])
  have "SCRConfParseFile (body d @ NL # rest) de_ctx =
         (if SCRConfIsLineBlankOrComment (body d @ [NL]) \<noteq> 0 then SCRConfParseFile rest de_ctx
          else SCRConfParseFile rest (snd (SCRConfAddReference (body d @ [NL]) de_ctx)))"
    by (rule ParseFile_line [OF body_chars(2) [OF wf] body_chars(1) [OF wf] True])
  then have "SCRConfParseFile (body d @ NL # rest) de_ctx =
         SCRConfParseFile rest (snd (SCRConfAddReference (body d @ [NL]) de_ctx))"
    by (simp only: c) simp
  then show ?thesis
    by (simp add: render_def)
next
  case False
  with len have l: "1023 \<le> length (body d)" "take 1023 (body d) = body d" "drop 1023 (body d) = []"
    by simp_all
  from fgets_long [OF body_chars(2) [OF wf] l(1), of rest] l
  have f: "fgets 1024 (body d @ NL # rest) = Some (body d, NL # rest)" by simp
  have s: "c_str (body d) = body d"
    by (rule c_str_id [OF body_chars(1) [OF wf]])
  from classify_well_formed [OF wf, of "[]"]
  have c: "SCRConfIsLineBlankOrComment (body d) = 0" by simp
  have "SCRConfParseFile (body d @ NL # rest) de_ctx =
        SCRConfParseFile rest (snd (SCRConfAddReference (body d) de_ctx))"
    by (simp add: ParseFile_step [OF f] s c ParseFile_NL)
  then show ?thesis
    by (simp add: render_def AddReference_render [OF wf])
qed

subsection \<open>The loop on a source of well-formed lines\<close>

lemma Alloc_eq: "SCRConfAllocSCRConfReference n u = \<lparr>system = SCRConfStringToLowercase n, url = u\<rparr>"
  by (simp add: SCRConfAllocSCRConfReference_def)

lemma ParseFile_directives:
  assumes "ctx_inv de_ctx" "\<forall>d \<in> set ds. well_formed d \<and> length (body d) \<le> 1023"
  shows "ctx_inv (SCRConfParseFile (concat (map render ds)) de_ctx) \<and>
         set (ctx_entries (SCRConfParseFile (concat (map render ds)) de_ctx)) =
           {e. e \<in> set (ctx_entries de_ctx) \<or>
               system e \<notin> system ` set (ctx_entries de_ctx) \<and> url e \<noteq> None \<and>
               map_of (keyvals ds) (system e) = url e}"
  using assms
proof (induction ds arbitrary: de_ctx)
  case Nil
  then show ?case by (auto simp: ParseFile_Nil keyvals_def)
next
  case (Cons d ds)
  let ?c1 = "snd (SCRConfAddReference (render d) de_ctx)"
  let ?k = "SCRConfStringToLowercase (dname d)"
  let ?E = "set (ctx_entries de_ctx)"
  let ?E1 = "set (ctx_entries ?c1)"
  from Cons.prems have wf: "well_formed d" and len: "length (body d) \<le> 1023"
    and rest: "\<forall>d \<in> set ds. well_formed d \<and> length (body d) \<le> 1023"
    by simp_all
  have step: "SCRConfParseFile (concat (map render (d # ds))) de_ctx =
              SCRConfParseFile (concat (map render ds)) ?c1"
    using ParseFile_well_formed [OF wf len, of "concat (map render ds)" de_ctx] by simp
  from AddReference_well_formed [OF Cons.prems(1) wf, of "[NL]"]
  have inv1: "ctx_inv ?c1"
    and e1: "?E1 = (if ?k \<in> system ` ?E then ?E else insert \<lparr>system = ?k, url = Some (dvalue d)\<rparr> ?E)"
    by (simp_all add: render_def Alloc_eq)
  from Cons.IH [OF inv1 rest]
  have inv2: "ctx_inv (SCRConfParseFile (concat (map render ds)) ?c1)"
    and e2: "set (ctx_entries (SCRConfParseFile (concat (map render ds)) ?c1)) =
           {e. e \<in> ?E1 \<or> system e \<notin> system ` ?E1 \<and> url e \<noteq> None \<and>
               map_of (keyvals ds) (system e) = url e}"
    by simp_all
  have kv: "map_of (keyvals (d # ds)) x = (if x = ?k then Some (dvalue d) else map_of (keyvals ds) x)"
    for x
    by (simp add: keyvals_def)
  have "(e \<in> ?E1 \<or> system e \<notin> system ` ?E1 \<and> url e \<noteq> None \<and>
               map_of (keyvals ds) (system e) = url e) \<longleftrightarrow>
        (e \<in> ?E \<or> system e \<notin> system ` ?E \<and> url e \<noteq> None \<and>
               map_of (keyvals (d # ds)) (system e) = url e)" for e
  proof (cases "?k \<in> system ` ?E")
    case True
    with e1 have "?E1 = ?E" by simp
    moreover have "system e \<noteq> ?k" if "system e \<notin> system ` ?E"
    proof
      assume "system e = ?k"
      with that True show False by simp
    qed
    ultimately show ?thesis
      by (simp only: kv) metis
  next
    case False
    with e1 have s: "?E1 = insert \<lparr>system = ?k, url = Some (dvalue d)\<rparr> ?E" by simp
    have eq: "e = \<lparr>system = ?k, url = Some (dvalue d)\<rparr> \<longleftrightarrow> system e = ?k \<and> url e = Some (dvalue d)"
      by (cases e) simp
    show ?thesis
    proof (cases "system e = ?k")
      case True
      have ne: "e \<notin> ?E"
      proof
        assume "e \<in> ?E"
        then have "system e \<in> system ` ?E" by (rule imageI)
        with True False show False by simp
      qed
      from True False have nk: "system e \<notin> system ` ?E" by simp
      have "(e \<in> ?E1 \<or> system e \<notin> system ` ?E1 \<and> url e \<noteq> None \<and>
               map_of (keyvals ds) (system e) = url e) \<longleftrightarrow> url e = Some (dvalue d)"
        using True ne by (simp add: s eq)
      moreover have "(e \<in> ?E \<or> system e \<notin> system ` ?E \<and> url e \<noteq> None \<and>
               map_of (keyvals (d # ds)) (system e) = url e) \<longleftrightarrow> url e = Some (dvalue d)"
        using True ne nk by (auto simp: kv)
      ultimately show ?thesis by (rule trans [OF _ sym])
    next
      case sys: False
      with False show ?thesis
        by (simp only: kv s) (simp add: eq)
    qed
  qed
  then have "{e. e \<in> ?E1 \<or> system e \<notin> system ` ?E1 \<and> url e \<noteq> None \<and>
               map_of (keyvals ds) (system e) = url e} =
        {e. e \<in> ?E \<or> system e \<notin> system ` ?E \<and> url e \<noteq> None \<and>
               map_of (keyvals (d # ds)) (system e) = url e}"
    by (rule Collect_cong)
  with step inv2 e2 show ?case by (simp only:)
qed

lemma GetReference_Some_iff:
  assumes "ctx_inv de_ctx"
  shows "fst (SCRConfGetReference name de_ctx) = Some e \<longleftrightarrow>
         e \<in> set (ctx_entries de_ctx) \<and> system e = SCRConfStringToLowercase name"
proof -
  from assms obtain ht where ht: "reference_conf_ht de_ctx = Some ht" and hinv: "ht_inv ht"
    by (auto simp: ctx_inv_def split: option.splits)
  show ?thesis
    using Lookup_Some_iff [OF hinv, of "SCRConfAllocSCRConfReference name None" e] ht
    by (simp add: SCRConfGetReference_def Let_def ctx_entries_def)
qed

lemma HashTableInit_inv: "0 < n \<Longrightarrow> ht_inv (HashTableInit n)"
  by (simp add: ht_inv_def HashTableInit_def entries_def)

lemma map_of_keyvals:
  "map_of (keyvals ds) k =
   map_option dvalue (find (\<lambda>d. SCRConfStringToLowercase (dname d) = k) ds)"
  by (induction ds) (auto simp: keyvals_def)


subsection \<open>The table after the load\<close>

lemma Load_Returns:
  assumes "SCRConfLoadReferenceConfigFile env de_ctx0 = Returns (r, de_ctx)"
    and "stream env = Some src"
  shows "r = 0 \<and>
         de_ctx = SCRConfParseFile src (de_ctx0\<lparr>reference_conf_ht := Some (HashTableInit 128)\<rparr>)"
  using assms
  by (auto simp: SCRConfLoadReferenceConfigFile_def Init_result stream_def
      split: if_splits option.splits)

lemma Load_reading:
  "SCRConfLoadReferenceConfigFile (reading src) de_ctx0 =
   Returns (0, SCRConfParseFile src (de_ctx0\<lparr>reference_conf_ht := Some (HashTableInit 128)\<rparr>))"
  by (simp add: SCRConfLoadReferenceConfigFile_def Init_result reading_def)

lemma stream_reading: "stream (reading src) = Some src"
  by (simp add: stream_def reading_def)

lemma ctx_inv_Init: "ctx_inv (de_ctx0\<lparr>reference_conf_ht := Some (HashTableInit 128)\<rparr>)"
  by (simp add: ctx_inv_def HashTableInit_inv)

lemma ctx_entries_Init: "ctx_entries (de_ctx0\<lparr>reference_conf_ht := Some (HashTableInit 128)\<rparr>) = []"
  by (simp add: ctx_entries_def HashTableInit_def entries_def)

lemma loaded_directives:
  assumes wf: "\<forall>d \<in> set ds. well_formed d \<and> length (body d) \<le> 1023"
    and st: "stream env = Some (concat (map render ds))"
    and ld: "SCRConfLoadReferenceConfigFile env de_ctx0 = Returns (r, de_ctx)"
  shows "ctx_inv de_ctx"
    and "set (ctx_entries de_ctx) = {e. url e \<noteq> None \<and> map_of (keyvals ds) (system e) = url e}"
proof -
  let ?c = "de_ctx0\<lparr>reference_conf_ht := Some (HashTableInit 128)\<rparr>"
  from Load_Returns [OF ld st] have c: "de_ctx = SCRConfParseFile (concat (map render ds)) ?c"
    by simp
  from ParseFile_directives [OF ctx_inv_Init wf, of de_ctx0] c
  show "ctx_inv de_ctx"
    and "set (ctx_entries de_ctx) = {e. url e \<noteq> None \<and> map_of (keyvals ds) (system e) = url e}"
    by (simp_all add: ctx_entries_Init)
qed

lemma loaded_lookup:
  assumes wf: "\<forall>d \<in> set ds. well_formed d \<and> length (body d) \<le> 1023"
    and st: "stream env = Some (concat (map render ds))"
    and ld: "SCRConfLoadReferenceConfigFile env de_ctx0 = Returns (r, de_ctx)"
  shows "fst (SCRConfGetReference name de_ctx) =
         map_option (\<lambda>d. \<lparr>system = SCRConfStringToLowercase name, url = Some (dvalue d)\<rparr>)
           (find (\<lambda>d. SCRConfStringToLowercase (dname d) = SCRConfStringToLowercase name) ds)"
proof -
  let ?k = "SCRConfStringToLowercase name"
  note inv = loaded_directives(1) [OF wf st ld]
  note ent = loaded_directives(2) [OF wf st ld]
  have mem: "e \<in> set (ctx_entries de_ctx) \<longleftrightarrow>
             url e \<noteq> None \<and> map_of (keyvals ds) (system e) = url e" for e
    by (simp only: ent mem_Collect_eq)
  have iff: "fst (SCRConfGetReference name de_ctx) = Some e \<longleftrightarrow>
             system e = ?k \<and> url e \<noteq> None \<and> map_of (keyvals ds) ?k = url e" for e
    by (simp only: GetReference_Some_iff [OF inv] mem) metis
  show ?thesis
  proof (cases "find (\<lambda>d. SCRConfStringToLowercase (dname d) = ?k) ds")
    case None
    then have "map_of (keyvals ds) ?k = None" by (simp add: map_of_keyvals)
    then have "\<forall>e. fst (SCRConfGetReference name de_ctx) \<noteq> Some e"
      by (auto simp: iff)
    then have "fst (SCRConfGetReference name de_ctx) = None"
      by (simp only: not_Some_eq)
    with None show ?thesis by simp
  next
    case (Some d0)
    then have "map_of (keyvals ds) ?k = Some (dvalue d0)" by (simp add: map_of_keyvals)
    then have "fst (SCRConfGetReference name de_ctx) = Some \<lparr>system = ?k, url = Some (dvalue d0)\<rparr>"
      by (simp add: iff)
    with Some show ?thesis by simp
  qed
qed

lemma loaded_count:
  assumes wf: "\<forall>d \<in> set ds. well_formed d \<and> length (body d) \<le> 1023"
    and st: "stream env = Some (concat (map render ds))"
    and ld: "SCRConfLoadReferenceConfigFile env de_ctx0 = Returns (r, de_ctx)"
  shows "ctx_count de_ctx = card ((\<lambda>d. SCRConfStringToLowercase (dname d)) ` set ds)"
proof -
  note inv = loaded_directives(1) [OF wf st ld]
  note ent = loaded_directives(2) [OF wf st ld]
  from inv obtain ht where ht: "reference_conf_ht de_ctx = Some ht" and hinv: "ht_inv ht"
    by (auto simp: ctx_inv_def split: option.splits)
  from hinv have d: "distinct (map system (entries ht))" and c: "count ht = length (entries ht)"
    by (simp_all add: ht_inv_def)
  from ht have e: "ctx_entries de_ctx = entries ht" by (simp add: ctx_entries_def)
  have mem: "x \<in> set (entries ht) \<longleftrightarrow>
             url x \<noteq> None \<and> map_of (keyvals ds) (system x) = url x" for x
    using ent by (simp only: e [symmetric] mem_Collect_eq)
  have "system ` set (entries ht) = dom (map_of (keyvals ds))"
  proof (intro set_eqI iffI)
    fix k
    assume "k \<in> system ` set (entries ht)"
    then obtain x where x: "k = system x" "x \<in> set (entries ht)" by (rule imageE)
    from x(2) have "url x \<noteq> None" "map_of (keyvals ds) (system x) = url x"
      by (simp_all add: mem)
    with x(1) show "k \<in> dom (map_of (keyvals ds))" by (simp add: domIff)
  next
    fix k
    assume "k \<in> dom (map_of (keyvals ds))"
    then obtain u where "map_of (keyvals ds) k = Some u" by auto
    then have "\<lparr>system = k, url = Some u\<rparr> \<in> set (entries ht)"
      by (simp add: mem)
    then have "system \<lparr>system = k, url = Some u\<rparr> \<in> system ` set (entries ht)"
      by (rule imageI)
    then show "k \<in> system ` set (entries ht)" by simp
  qed
  also have "\<dots> = (\<lambda>d. SCRConfStringToLowercase (dname d)) ` set ds"
    by (simp add: dom_map_of_conv_image_fst keyvals_def image_image)
  finally have "card (set (map system (entries ht))) =
                card ((\<lambda>d. SCRConfStringToLowercase (dname d)) ` set ds)"
    by simp
  moreover from d have "card (set (map system (entries ht))) = length (entries ht)"
    using distinct_card [of "map system (entries ht)"] by simp
  ultimately show ?thesis
    using c ht by (simp add: ctx_count_def)
qed

subsection \<open>The streams of the unit tests, evaluated\<close>

lemma char_of_eq_iff': "(c = char_of (n :: nat)) \<longleftrightarrow> (take_bit 8 n = of_char c)"
  by (metis char_of_eq_iff)

lemmas eval_defs = fgets_def c_str_def NUL_def NL_def isspace_def SCRConfAddReference_def pcre_exec_def
  SC_RCONF_REGEX_def lits_def pcre_get_substring_def pcre_space_def is_alpha_def is_digit_def
  SCRConfAllocSCRConfReference_def SCRConfStringToLowercase_def tolower_def char_of_eq_iff char_of_eq_iff'
  HashTableLookup_def HashTableAdd_def HashTableInit_def SCRConfReferenceHashFunc_def
  SCRConfReferenceHashCompareFunc_def SCRConfGetReference_def SCRConfParseFile.simps Let_def

lemma canonical_well_formed:
  "name_token n \<Longrightarrow> value_token v \<Longrightarrow> well_formed (canonical n v)"
  by (simp add: well_formed_def canonical_def blank_def pcre_space_def NL_def)

lemma render_canonical:
  "render (canonical n v) = ''config reference: '' @ n @ '' '' @ v @ [NL]"
  by (simp add: render_def body_def before_name_def canonical_def)









subsection \<open>What a line that the pattern accepts looks like\<close>

lemma rmatch_One_D:
  assumes "rmatch (One c # r) i s ov = Some v"
  shows "\<exists>x xs. s = x # xs \<and> cmatch c x \<and> rmatch r (Suc i) xs ov = Some v"
proof (cases s)
  case Nil
  with assms show ?thesis by simp
next
  case (Cons x xs)
  with assms have "cmatch c x" "rmatch r (Suc i) xs ov = Some v"
    by (simp_all split: if_splits)
  with Cons show ?thesis by blast
qed

lemma rmatch_Star_D:
  "rmatch (Star c # r) i s ov = Some v \<Longrightarrow>
   \<exists>w rest. s = w @ rest \<and> (\<forall>x \<in> set w. cmatch c x) \<and> rmatch r (i + length w) rest ov = Some v"
proof (induction s arbitrary: i)
  case Nil
  then have "rmatch r i [] ov = Some v" by simp
  then show ?case
    by (intro exI [of _ "[]"]) simp
next
  case (Cons x xs)
  have stay: ?case if "rmatch r i (x # xs) ov = Some v"
    using that by (intro exI [of _ "[]"] exI [of _ "x # xs"]) simp
  show ?case
  proof (cases "cmatch c x")
    case False
    with Cons.prems have "rmatch r i (x # xs) ov = Some v" by simp
    then show ?thesis by (rule stay)
  next
    case True
    show ?thesis
    proof (cases "rmatch (Star c # r) (Suc i) xs ov")
      case None
      with True Cons.prems have "rmatch r i (x # xs) ov = Some v" by simp
      then show ?thesis by (rule stay)
    next
      case (Some v')
      with True Cons.prems have "v' = v" by simp
      with Some have "rmatch (Star c # r) (Suc i) xs ov = Some v" by simp
      from Cons.IH [OF this] obtain w rest where
        w: "xs = w @ rest" "\<forall>x \<in> set w. cmatch c x" "rmatch r (Suc i + length w) rest ov = Some v"
        by (elim exE conjE)
      show ?thesis
        using True w by (intro exI [of _ "x # w"] exI [of _ rest]) simp
    qed
  qed
qed

lemma rmatch_Plus_D:
  assumes "rmatch (Plus c # r) i s ov = Some v"
  shows "\<exists>w rest. s = w @ rest \<and> w \<noteq> [] \<and> (\<forall>x \<in> set w. cmatch c x) \<and>
                   rmatch r (i + length w) rest ov = Some v"
proof (cases s)
  case Nil
  with assms show ?thesis by simp
next
  case (Cons x xs)
  with assms have x: "cmatch c x" and m: "rmatch (Star c # r) (Suc i) xs ov = Some v"
    by (simp_all split: if_splits)
  from rmatch_Star_D [OF m] obtain w rest where
    w: "xs = w @ rest" "\<forall>x \<in> set w. cmatch c x" "rmatch r (Suc i + length w) rest ov = Some v"
    by (elim exE conjE)
  show ?thesis
    using Cons x w by (intro exI [of _ "x # w"] exI [of _ rest]) simp
qed

lemma rmatch_lits_D:
  "rmatch (lits t @ r) i s ov = Some v \<Longrightarrow>
   \<exists>rest. s = t @ rest \<and> rmatch r (i + length t) rest ov = Some v"
proof (induction t arbitrary: i s)
  case Nil
  then show ?case by (simp add: lits_def)
next
  case (Cons a t)
  from Cons.prems have "rmatch (One (Lit a) # lits t @ r) i s ov = Some v"
    by (simp add: lits_def)
  from rmatch_One_D [OF this] obtain x xs where s: "s = x # xs" and x: "cmatch (Lit a) x"
    and m: "rmatch (lits t @ r) (Suc i) xs ov = Some v"
    by (elim exE conjE)
  from Cons.IH [OF m] obtain rest where
    r: "xs = t @ rest" "rmatch r (Suc i + length t) rest ov = Some v"
    by (elim exE conjE)
  show ?case
    using s x r by (intro exI [of _ rest]) simp
qed

lemma rmatch_Eol_D:
  "rmatch [Eol] i s ov = Some v \<Longrightarrow> (s = [] \<or> s = [NL]) \<and> v = ov[1 := i]"
  by (simp split: if_splits)

lemma ov_of_eq:
  "p = length (before_name d) \<Longrightarrow> q = p + length (dname d) + length (sp4 d) \<Longrightarrow>
   ov_of d e = (replicate 30 0)[0 := 0, 2 := p, 3 := p + length (dname d), 4 := q,
                                5 := q + length (dvalue d), 1 := e]"
  by (simp add: ov_of_def Let_def)

lemma pcre_exec_D:
  assumes "pcre_exec SC_RCONF_REGEX line 30 = Some ov"
  shows "\<exists>d w5 t. line = body d @ w5 @ t \<and> ov = ov_of d (length (body d @ w5)) \<and>
           spaced d \<and> name_token (dname d) \<and> list_all pcre_space (sp4 d) \<and> sp4 d \<noteq> [] \<and>
           dvalue d \<noteq> [] \<and> list_all (\<lambda>c. c \<noteq> NL) (dvalue d) \<and>
           list_all pcre_space w5 \<and> (t = [] \<or> t = [NL])"
proof -
  let ?init = "(replicate 30 0)[0 := 0]"
  let ?R9 = "[Star Space, Eol]"
  let ?R8 = "Plus AnyCh # Close 2 # ?R9"
  let ?R7 = "Plus Space # Open 2 # ?R8"
  let ?R6 = "Star NameCh # Close 1 # ?R7"
  let ?R5 = "Star Space # Open 1 # One Alpha # ?R6"
  let ?R4 = "Star Space # One (Lit (CHR '':'')) # ?R5"
  let ?R3 = "lits ''reference'' @ ?R4"
  let ?R2 = "Plus Space # ?R3"
  let ?R1 = "lits ''config'' @ ?R2"
  have re: "SC_RCONF_REGEX = Bol # Star Space # ?R1"
    by (simp add: SC_RCONF_REGEX_def)
  from assms have m0: "rmatch (Star Space # ?R1) 0 line ?init = Some ov"
    by (simp only: re pcre_exec_Bol)
  from rmatch_Star_D [OF m0] obtain w0 r0 where l0: "line = w0 @ r0"
    and s0: "\<forall>x \<in> set w0. cmatch Space x"
    and m1: "rmatch ?R1 (0 + length w0) r0 ?init = Some ov"
    by (elim exE conjE)
  from rmatch_lits_D [OF m1] obtain r1 where l1: "r0 = ''config'' @ r1"
    and m2: "rmatch ?R2 (0 + length w0 + length ''config'') r1 ?init = Some ov"
    by (elim exE conjE)
  from rmatch_Plus_D [OF m2] obtain w1 r2 where l2: "r1 = w1 @ r2" and n1: "w1 \<noteq> []"
    and s1: "\<forall>x \<in> set w1. cmatch Space x"
    and m3: "rmatch ?R3 (0 + length w0 + length ''config'' + length w1) r2 ?init = Some ov"
    by (elim exE conjE)
  from rmatch_lits_D [OF m3] obtain r3 where l3: "r2 = ''reference'' @ r3"
    and m4: "rmatch ?R4 (0 + length w0 + length ''config'' + length w1 + length ''reference'')
               r3 ?init = Some ov"
    by (elim exE conjE)
  from rmatch_Star_D [OF m4] obtain w2 r4 where l4: "r3 = w2 @ r4"
    and s2: "\<forall>x \<in> set w2. cmatch Space x"
    and m5: "rmatch (One (Lit (CHR '':'')) # ?R5)
               (0 + length w0 + length ''config'' + length w1 + length ''reference'' + length w2)
               r4 ?init = Some ov"
    by (elim exE conjE)
  from rmatch_One_D [OF m5] obtain x r5 where l5: "r4 = x # r5" and x: "cmatch (Lit (CHR '':'')) x"
    and m6: "rmatch ?R5
               (Suc (0 + length w0 + length ''config'' + length w1 + length ''reference'' + length w2))
               r5 ?init = Some ov"
    by (elim exE conjE)
  from rmatch_Star_D [OF m6] obtain w3 r6 where l6: "r5 = w3 @ r6"
    and s3: "\<forall>x \<in> set w3. cmatch Space x"
    and m7: "rmatch (Open 1 # One Alpha # ?R6)
               (Suc (0 + length w0 + length ''config'' + length w1 + length ''reference'' + length w2)
                + length w3)
               r6 ?init = Some ov"
    by (elim exE conjE)
  define p where "p = Suc (0 + length w0 + length ''config'' + length w1 + length ''reference''
                           + length w2) + length w3"
  from m7 have m8: "rmatch (One Alpha # ?R6) p r6 (?init[2 := p]) = Some ov"
    by (simp add: p_def)
  from rmatch_One_D [OF m8] obtain a r7 where l7: "r6 = a # r7" and a: "cmatch Alpha a"
    and m9: "rmatch ?R6 (Suc p) r7 (?init[2 := p]) = Some ov"
    by (elim exE conjE)
  from rmatch_Star_D [OF m9] obtain nm r8 where l8: "r7 = nm @ r8"
    and sn: "\<forall>x \<in> set nm. cmatch NameCh x"
    and m10: "rmatch (Close 1 # ?R7) (Suc p + length nm) r8 (?init[2 := p]) = Some ov"
    by (elim exE conjE)
  from m10 have m11: "rmatch ?R7 (Suc p + length nm) r8 (?init[2 := p, 3 := Suc p + length nm]) = Some ov"
    by simp
  from rmatch_Plus_D [OF m11] obtain w4 r9 where l9: "r8 = w4 @ r9" and n4: "w4 \<noteq> []"
    and s4: "\<forall>x \<in> set w4. cmatch Space x"
    and m12: "rmatch (Open 2 # ?R8) (Suc p + length nm + length w4) r9
                (?init[2 := p, 3 := Suc p + length nm]) = Some ov"
    by (elim exE conjE)
  define q where "q = Suc p + length nm + length w4"
  from m12 have m13: "rmatch ?R8 q r9 (?init[2 := p, 3 := Suc p + length nm, 4 := q]) = Some ov"
    by (simp add: q_def)
  from rmatch_Plus_D [OF m13] obtain v r10 where l10: "r9 = v @ r10" and nv: "v \<noteq> []"
    and sv: "\<forall>x \<in> set v. cmatch AnyCh x"
    and m14: "rmatch (Close 2 # ?R9) (q + length v) r10
                (?init[2 := p, 3 := Suc p + length nm, 4 := q]) = Some ov"
    by (elim exE conjE)
  from m14 have m15: "rmatch (Star Space # [Eol]) (q + length v) r10
                (?init[2 := p, 3 := Suc p + length nm, 4 := q, 5 := q + length v]) = Some ov"
    by simp
  from rmatch_Star_D [OF m15] obtain w5 t where l11: "r10 = w5 @ t"
    and s5: "\<forall>x \<in> set w5. cmatch Space x"
    and m16: "rmatch [Eol] (q + length v + length w5) t
                (?init[2 := p, 3 := Suc p + length nm, 4 := q, 5 := q + length v]) = Some ov"
    by (elim exE conjE)
  from rmatch_Eol_D [OF m16] have t: "t = [] \<or> t = [NL]"
    and ov: "ov = ?init[2 := p, 3 := Suc p + length nm, 4 := q, 5 := q + length v,
                       1 := q + length v + length w5]"
    by simp_all
  let ?d = "\<lparr>lead = w0, sp1 = w1, sp2 = w2, sp3 = w3, dname = a # nm, sp4 = w4, dvalue = v\<rparr>"
  from x have xc: "x = CHR '':''" by simp
  have pl: "p = length (before_name ?d)"
    by (simp add: p_def before_name_def)
  have ql: "q = p + length (dname ?d) + length (sp4 ?d)"
    by (simp add: q_def)
  have line: "line = body ?d @ w5 @ t"
    by (simp add: l0 l1 l2 l3 l4 l5 xc l6 l7 l8 l9 l10 l11 body_def before_name_def)
  have el: "length (body ?d @ w5) = q + length v + length w5"
    by (simp add: ql pl body_def)
  have ovd: "ov = ov_of ?d (length (body ?d @ w5))"
    by (simp only: ov ov_of_eq [OF pl ql] el) simp
  have nt: "name_token (dname ?d)"
    using a sn by (simp add: name_token_def list_all_iff)
  have sp: "spaced ?d"
    using s0 s1 n1 s2 s3 by (simp add: spaced_def list_all_iff)
  show ?thesis
    using line ovd nt sp s4 n4 nv sv s5 t
    by (intro exI [of _ ?d] exI [of _ w5] exI [of _ t]) (simp add: list_all_iff)
qed

lemma align:
  "list_all S w \<Longrightarrow> list_all S w' \<Longrightarrow> \<not> S x \<Longrightarrow> \<not> S x' \<Longrightarrow> w @ x # r = w' @ x' # r' \<Longrightarrow>
   w = w' \<and> x = x' \<and> r = r'"
proof (induction w arbitrary: w')
  case Nil
  then show ?case by (cases w') auto
next
  case (Cons a w)
  show ?case
  proof (cases w')
    case Nil
    with Cons.prems show ?thesis by auto
  next
    case (Cons b u)
    with Cons.prems have "list_all S w" "list_all S u" "w @ x # r = u @ x' # r'" "a = b"
      by simp_all
    with Cons.IH [of u] Cons.prems(3,4) Cons show ?thesis by simp
  qed
qed

lemma align_end:
  "list_all S w \<Longrightarrow> list_all S w' \<Longrightarrow> \<not> S x' \<Longrightarrow> w = w' @ x' # r' \<Longrightarrow> False"
  by (auto simp: list_all_iff)

lemma before_name_align:
  assumes sd: "spaced d" and se: "spaced e"
    and eq: "before_name d @ rest = before_name e @ rest'"
    and r: "rest = [] \<or> \<not> pcre_space (hd rest)" and r': "rest' \<noteq> []" "\<not> pcre_space (hd rest')"
  shows "rest = rest'"
proof -
  let ?S = pcre_space
  have c: "\<not> ?S (CHR ''c'')" and rr: "\<not> ?S (CHR ''r'')" and co: "\<not> ?S (CHR '':'')"
    by (simp_all add: pcre_space_def)
  from sd se have l: "list_all ?S (lead d)" "list_all ?S (lead e)"
    and s1: "list_all ?S (sp1 d)" "list_all ?S (sp1 e)"
    and s2: "list_all ?S (sp2 d)" "list_all ?S (sp2 e)"
    and s3: "list_all ?S (sp3 d)" "list_all ?S (sp3 e)"
    by (simp_all add: spaced_def)
  from eq have "lead d @ CHR ''c'' # (''onfig'' @ sp1 d @ ''reference'' @ sp2 d @ '':'' @ sp3 d @ rest) =
                lead e @ CHR ''c'' # (''onfig'' @ sp1 e @ ''reference'' @ sp2 e @ '':'' @ sp3 e @ rest')"
    by (simp add: before_name_def)
  from align [OF l c c this]
  have "sp1 d @ CHR ''r'' # (''eference'' @ sp2 d @ '':'' @ sp3 d @ rest) =
        sp1 e @ CHR ''r'' # (''eference'' @ sp2 e @ '':'' @ sp3 e @ rest')"
    by simp
  from align [OF s1 rr rr this]
  have "sp2 d @ CHR '':'' # (sp3 d @ rest) = sp2 e @ CHR '':'' # (sp3 e @ rest')"
    by simp
  from align [OF s2 co co this]
  have e3: "sp3 d @ rest = sp3 e @ rest'"
    by simp
  from r' obtain y ys where y: "rest' = y # ys" "\<not> ?S y"
    by (cases rest') auto
  show ?thesis
  proof (cases rest)
    case Nil
    with e3 y have "sp3 d = sp3 e @ y # ys" by simp
    from align_end [OF s3 y(2) this] show ?thesis ..
  next
    case (Cons z zs)
    with r have "\<not> ?S z" by simp
    from align [OF s3 this y(2)] e3 Cons y show ?thesis by simp
  qed
qed

lemma name_token_no_space: "name_token n \<Longrightarrow> list_all (\<lambda>c. \<not> pcre_space c) n"
  using space_not_name alpha_not_space
  by (cases n) (auto simp: name_token_def list_all_iff)

lemma name_token_hd: "name_token n \<Longrightarrow> n \<noteq> [] \<and> is_alpha (hd n)"
  by (cases n) (simp_all add: name_token_def)

lemma no_name_no_match:
  assumes sd: "spaced d" and r: "rest = [] \<or> \<not> is_alpha (hd rest) \<and> \<not> pcre_space (hd rest)"
  shows "pcre_exec SC_RCONF_REGEX (before_name d @ rest) 30 = None"
proof (cases "pcre_exec SC_RCONF_REGEX (before_name d @ rest) 30")
  case None
  then show ?thesis .
next
  case (Some ov)
  from pcre_exec_D [OF Some] obtain e w5 t where
    line: "before_name d @ rest = body e @ w5 @ t" and se: "spaced e" and n: "name_token (dname e)"
    by (elim exE conjE)
  let ?rest' = "dname e @ sp4 e @ dvalue e @ w5 @ t"
  from name_token_hd [OF n] have h: "?rest' \<noteq> []" "is_alpha (hd ?rest')" by simp_all
  from line have eq: "before_name d @ rest = before_name e @ ?rest'"
    by (simp add: body_def)
  from r have r0: "rest = [] \<or> \<not> pcre_space (hd rest)" by auto
  from before_name_align [OF sd se eq r0 h(1) alpha_not_space [OF h(2)]]
  have "rest = ?rest'" .
  with h r have False by simp
  then show ?thesis ..
qed

lemma no_value_no_match:
  assumes sd: "spaced d" and n: "name_token n" and t: "t = [] \<or> t = [NL]"
  shows "pcre_exec SC_RCONF_REGEX (before_name d @ n @ t) 30 = None"
proof (cases "pcre_exec SC_RCONF_REGEX (before_name d @ n @ t) 30")
  case None
  then show ?thesis .
next
  case (Some ov)
  from pcre_exec_D [OF Some] obtain e w5 t' where
    line: "before_name d @ n @ t = body e @ w5 @ t'" and se: "spaced e"
    and ne: "name_token (dname e)" and s4: "list_all pcre_space (sp4 e)" "sp4 e \<noteq> []"
    and v: "dvalue e \<noteq> []"
    by (elim exE conjE)
  let ?S = "\<lambda>c. \<not> pcre_space c"
  let ?rest' = "dname e @ sp4 e @ dvalue e @ w5 @ t'"
  from name_token_hd [OF ne] have h: "?rest' \<noteq> []" "is_alpha (hd ?rest')" by simp_all
  from name_token_hd [OF n] have hn: "n @ t \<noteq> []" "is_alpha (hd (n @ t))" by simp_all
  from line have eq: "before_name d @ (n @ t) = before_name e @ ?rest'"
    by (simp add: body_def)
  from before_name_align [OF sd se eq _ h(1) alpha_not_space [OF h(2)]] alpha_not_space [OF hn(2)]
  have e1: "n @ t = ?rest'" by simp
  from s4 obtain y ys where y: "sp4 e = y # ys" "\<not> ?S y"
    by (cases "sp4 e") auto
  note sn = name_token_no_space [OF n] name_token_no_space [OF ne]
  from t have False
  proof
    assume "t = []"
    with e1 y have "n = dname e @ y # (ys @ dvalue e @ w5 @ t')" by simp
    from align_end [OF sn y(2) this] show False .
  next
    assume "t = [NL]"
    with e1 y have "n @ NL # [] = dname e @ y # (ys @ dvalue e @ w5 @ t')" by simp
    from align [OF sn _ y(2) this] have "[] = ys @ dvalue e @ w5 @ t'"
      by (simp add: pcre_space_def NL_def)
    with v show False by simp
  qed
  then show ?thesis ..
qed

subsection \<open>What the pattern accepts\<close>

lemma rmatch_Star_ex:
  assumes "\<forall>x \<in> set w. cmatch c x" and r: "\<And>i ov. rmatch r i rest ov \<noteq> None"
  shows "rmatch (Star c # r) i (w @ rest) ov \<noteq> None"
  using assms(1)
proof (induction w arbitrary: i)
  case Nil
  show ?case using r [of i ov] by (cases rest) (auto split: option.splits)
next
  case (Cons x w)
  then have "rmatch (Star c # r) (Suc i) (w @ rest) ov \<noteq> None" by simp
  with Cons.prems show ?case by (auto split: option.splits)
qed

lemma rmatch_Plus_ex:
  assumes "w \<noteq> []" "\<forall>x \<in> set w. cmatch c x" and r: "\<And>i ov. rmatch r i rest ov \<noteq> None"
  shows "rmatch (Plus c # r) i (w @ rest) ov \<noteq> None"
proof -
  from assms(1) obtain x w' where w: "w = x # w'" by (cases w) auto
  with assms(2) have "\<forall>x \<in> set w'. cmatch c x" by simp
  from rmatch_Star_ex [OF this r, of "Suc i" ov] w assms(2) show ?thesis by simp
qed

lemma rmatch_lits_ex:
  assumes "\<And>i ov. rmatch r i rest ov \<noteq> None"
  shows "rmatch (lits s @ r) i (s @ rest) ov \<noteq> None"
  using assms by (simp add: rmatch_lits)

lemma pcre_exec_I:
  assumes sd: "spaced d" and n: "name_token (dname d)"
    and s4: "list_all pcre_space (sp4 d)" "sp4 d \<noteq> []"
    and v: "dvalue d \<noteq> []" "list_all (\<lambda>c. c \<noteq> NL) (dvalue d)"
    and s5: "list_all pcre_space w5" and t: "t = [] \<or> t = [NL]"
  shows "pcre_exec SC_RCONF_REGEX (body d @ w5 @ t) 30 \<noteq> None"
proof -
  let ?R9 = "[Star Space, Eol]"
  let ?R8 = "Plus AnyCh # Close 2 # ?R9"
  let ?R7 = "Plus Space # Open 2 # ?R8"
  let ?R6 = "Star NameCh # Close 1 # ?R7"
  let ?R5 = "Star Space # Open 1 # One Alpha # ?R6"
  let ?R4 = "Star Space # One (Lit (CHR '':'')) # ?R5"
  let ?R3 = "lits ''reference'' @ ?R4"
  let ?R2 = "Plus Space # ?R3"
  let ?R1 = "lits ''config'' @ ?R2"
  let ?s9 = "w5 @ t"
  let ?s8 = "dvalue d @ ?s9"
  let ?s7 = "sp4 d @ ?s8"
  let ?s6 = "dname d @ ?s7"
  let ?s5 = "sp3 d @ ?s6"
  let ?s4 = "sp2 d @ '':'' @ ?s5"
  let ?s3 = "''reference'' @ ?s4"
  let ?s2 = "sp1 d @ ?s3"
  let ?s1 = "''config'' @ ?s2"
  from sd have l: "\<forall>x \<in> set (lead d). cmatch Space x" and s1: "\<forall>x \<in> set (sp1 d). cmatch Space x"
    and n1: "sp1 d \<noteq> []" and s2: "\<forall>x \<in> set (sp2 d). cmatch Space x"
    and s3: "\<forall>x \<in> set (sp3 d). cmatch Space x"
    by (simp_all add: spaced_def list_all_iff)
  from s4 have s4': "\<forall>x \<in> set (sp4 d). cmatch Space x" by (simp add: list_all_iff)
  from s5 have s5': "\<forall>x \<in> set w5. cmatch Space x" by (simp add: list_all_iff)
  from v have v': "\<forall>x \<in> set (dvalue d). cmatch AnyCh x" by (simp add: list_all_iff)
  from n obtain a nm where nn: "dname d = a # nm" and a: "is_alpha a"
    and nm: "\<forall>x \<in> set nm. cmatch NameCh x"
    by (auto simp: name_token_def list_all_iff split: list.splits)
  have e10: "rmatch [Eol] i t ov \<noteq> None" for i ov
    using t by auto
  have e9: "rmatch ?R9 i ?s9 ov \<noteq> None" for i ov
    by (rule rmatch_Star_ex [OF s5' e10])
  then have e9': "rmatch (Close 2 # ?R9) i ?s9 ov \<noteq> None" for i ov
    by simp
  have e8: "rmatch ?R8 i ?s8 ov \<noteq> None" for i ov
    by (rule rmatch_Plus_ex [OF v(1) v' e9'])
  then have e8': "rmatch (Open 2 # ?R8) i ?s8 ov \<noteq> None" for i ov
    by simp
  have e7: "rmatch ?R7 i ?s7 ov \<noteq> None" for i ov
    by (rule rmatch_Plus_ex [OF s4(2) s4' e8'])
  then have e7': "rmatch (Close 1 # ?R7) i ?s7 ov \<noteq> None" for i ov
    by simp
  have e6: "rmatch ?R6 i (nm @ ?s7) ov \<noteq> None" for i ov
    by (rule rmatch_Star_ex [OF nm e7'])
  then have e6': "rmatch (Open 1 # One Alpha # ?R6) i ?s6 ov \<noteq> None" for i ov
    using a by (simp add: nn)
  have e5: "rmatch ?R5 i ?s5 ov \<noteq> None" for i ov
    by (rule rmatch_Star_ex [OF s3 e6'])
  then have e5': "rmatch (One (Lit (CHR '':'')) # ?R5) i ('':'' @ ?s5) ov \<noteq> None" for i ov
    by simp
  have e4: "rmatch ?R4 i ?s4 ov \<noteq> None" for i ov
    by (rule rmatch_Star_ex [OF s2 e5'])
  have e3: "rmatch ?R3 i ?s3 ov \<noteq> None" for i ov
    by (rule rmatch_lits_ex [OF e4])
  have e2: "rmatch ?R2 i ?s2 ov \<noteq> None" for i ov
    by (rule rmatch_Plus_ex [OF n1 s1 e3])
  have e1: "rmatch ?R1 i ?s1 ov \<noteq> None" for i ov
    by (rule rmatch_lits_ex [OF e2])
  have e0: "rmatch (Star Space # ?R1) i (lead d @ ?s1) ov \<noteq> None" for i ov
    by (rule rmatch_Star_ex [OF l e1])
  have re: "SC_RCONF_REGEX = Bol # Star Space # ?R1"
    by (simp add: SC_RCONF_REGEX_def)
  have line: "body d @ w5 @ t = lead d @ ?s1"
    by (simp add: body_def before_name_def)
  show ?thesis
    unfolding re pcre_exec_Bol line by (rule e0)
qed


subsection \<open>Lines read in pieces\<close>

lemma fgets_buf_append:
  "NL \<in> set (take k a) \<or> k \<le> length a \<Longrightarrow>
   fgets_buf k (a @ b) = (fst (fgets_buf k a), snd (fgets_buf k a) @ b)"
proof (induction k a rule: fgets_buf.induct)
  case (1 k)
  then show ?case by (cases b) simp_all
next
  case (2 k c s)
  show ?case
  proof (cases "k = 0 \<or> c = NL")
    case True
    then show ?thesis by auto
  next
    case False
    then obtain k' where k: "k = Suc k'" by (cases k) auto
    with "2.prems" False have "NL \<in> set (take k' s) \<or> k' \<le> length s" by auto
    with "2.IH" False k have "fgets_buf k' (s @ b) = (fst (fgets_buf k' s), snd (fgets_buf k' s) @ b)"
      by simp
    with False k show ?thesis by (simp split: prod.splits)
  qed
qed

lemma fgets_buf_rest:
  "a = [] \<or> last a = NL \<Longrightarrow> snd (fgets_buf k a) = [] \<or> last (snd (fgets_buf k a)) = NL"
proof (induction k a rule: fgets_buf.induct)
  case (1 k)
  then show ?case by simp
next
  case (2 k c s)
  show ?case
  proof (cases "k = 0 \<or> c = NL")
    case True
    with "2.prems" show ?thesis by (cases s) (auto split: if_splits)
  next
    case False
    with "2.prems" have "s = [] \<or> last s = NL" by (cases s) (auto split: if_splits)
    with "2.IH" False have "snd (fgets_buf (k - 1) s) = [] \<or> last (snd (fgets_buf (k - 1) s)) = NL"
      by simp
    with False show ?thesis by (auto split: prod.splits)
  qed
qed

lemma ParseFile_append:
  "a = [] \<or> last a = NL \<Longrightarrow>
   SCRConfParseFile (a @ b) de_ctx = SCRConfParseFile b (SCRConfParseFile a de_ctx)"
proof (induction a de_ctx rule: SCRConfParseFile.induct)
  case (1 fd de_ctx)
  show ?case
  proof (cases "fd = []")
    case True
    then show ?thesis by (simp add: ParseFile_Nil)
  next
    case False
    with "1.prems" have lst: "last fd = NL" by simp
    obtain buf fd' where fb: "fgets_buf 1023 fd = (buf, fd')" by (cases "fgets_buf 1023 fd")
    with False have f: "fgets 1024 fd = Some (buf, fd')" by (simp add: fgets_def)
    have "NL \<in> set (take 1023 fd) \<or> 1023 \<le> length fd"
    proof (cases "1023 \<le> length fd")
      case True
      then show ?thesis ..
    next
      case short: False
      from False lst have "NL \<in> set fd" by (metis last_in_set)
      with short show ?thesis by simp
    qed
    from fgets_buf_append [OF this, of b] fb False
    have f2: "fgets 1024 (fd @ b) = Some (buf, fd' @ b)" by (simp add: fgets_def)
    from fgets_buf_rest [OF "1.prems", of 1023] fb have r: "fd' = [] \<or> last fd' = NL" by simp
    show ?thesis
    proof (cases "SCRConfIsLineBlankOrComment (c_str buf) \<noteq> 0")
      case True
      from "1.IH"(1) [OF f refl refl True r] True show ?thesis
        by (simp add: ParseFile_step [OF f] ParseFile_step [OF f2])
    next
      case nb: False
      from "1.IH"(2) [OF f refl refl nb r] nb show ?thesis
        by (simp add: ParseFile_step [OF f] ParseFile_step [OF f2])
    qed
  qed
qed






subsection \<open>Names up to case\<close>

lemma upper_enum:
  "list_all (\<lambda>n::nat. (char_of n, char_of (n + 32)) \<in>
      set (zip ''ABCDEFGHIJKLMNOPQRSTUVWXYZ'' ''abcdefghijklmnopqrstuvwxyz'')) [65..<91]"
  by code_simp

lemma upper_pair:
  "(a, b) \<in> set (zip ''ABCDEFGHIJKLMNOPQRSTUVWXYZ'' ''abcdefghijklmnopqrstuvwxyz'') \<longleftrightarrow>
   65 \<le> (of_char a :: nat) \<and> (of_char a :: nat) \<le> 90 \<and> b = char_of (of_char a + 32 :: nat)"
proof
  assume "(a, b) \<in> set (zip ''ABCDEFGHIJKLMNOPQRSTUVWXYZ'' ''abcdefghijklmnopqrstuvwxyz'')"
  then show "65 \<le> (of_char a :: nat) \<and> (of_char a :: nat) \<le> 90 \<and> b = char_of (of_char a + 32 :: nat)"
    by (auto simp: char_of_eq_iff')
next
  assume r: "65 \<le> (of_char a :: nat) \<and> (of_char a :: nat) \<le> 90 \<and> b = char_of (of_char a + 32 :: nat)"
  define n where "n = (of_char a :: nat)"
  have "n \<in> set [65..<91]" unfolding set_upt using r by (simp add: n_def)
  with upper_enum have "(char_of n, char_of (n + 32)) \<in>
      set (zip ''ABCDEFGHIJKLMNOPQRSTUVWXYZ'' ''abcdefghijklmnopqrstuvwxyz'')"
    unfolding list_all_iff by (rule bspec)
  then have "(a, char_of (of_char a + 32 :: nat)) \<in>
      set (zip ''ABCDEFGHIJKLMNOPQRSTUVWXYZ'' ''abcdefghijklmnopqrstuvwxyz'')"
    unfolding n_def by (simp only: char_of_char)
  moreover from r have "b = char_of (of_char a + 32 :: nat)" by (rule conjunct2 [THEN conjunct2])
  ultimately show "(a, b) \<in> set (zip ''ABCDEFGHIJKLMNOPQRSTUVWXYZ'' ''abcdefghijklmnopqrstuvwxyz'')"
    by (simp only:)
qed

lemma same_letter_iff: "same_letter a b \<longleftrightarrow> tolower a = tolower b"
  unfolding same_letter_def upper_pair tolower_def Let_def
  by (auto simp: take_bit_eq_mod char_of_eq_iff char_of_eq_iff')

lemma same_name_iff: "same_name a b \<longleftrightarrow> SCRConfStringToLowercase a = SCRConfStringToLowercase b"
  unfolding same_name_def SCRConfStringToLowercase_def
  by (induction a arbitrary: b) (auto simp: list_all2_Cons1 same_letter_iff)

subsection \<open>Sources of well-formed lines and of rejected lines\<close>

lemma same_name_lower: "same_name (SCRConfStringToLowercase n) n"
  by (simp add: same_name_iff StringToLowercase_idem)




lemma ParseFile_last_line:
  assumes wf: "well_formed d" and len: "length (body d) \<le> 1023"
    and pre: "pre = [] \<or> last pre = NL"
  shows "SCRConfParseFile (pre @ body d) de_ctx = SCRConfParseFile (pre @ render d) de_ctx"
proof -
  have ne: "body d \<noteq> []" by (simp add: body_def before_name_def)
  from body_chars(2) [OF wf] have "NL \<notin> set (take 1023 (body d))" by (auto dest: in_set_takeD)
  from fgets_buf_full [OF this] len ne have f: "fgets 1024 (body d) = Some (body d, [])"
    by (simp add: fgets_def)
  have s: "c_str (body d) = body d"
    by (rule c_str_id [OF body_chars(1) [OF wf]])
  from classify_well_formed [OF wf, of "[]"]
  have c: "SCRConfIsLineBlankOrComment (body d) = 0" by simp
  have a: "SCRConfParseFile (body d) c1 = snd (SCRConfAddReference (render d) c1)" for c1
    by (simp add: ParseFile_step [OF f] s c ParseFile_Nil AddReference_render [OF wf])
  from ParseFile_well_formed [OF wf len, of "[]"]
  have b: "SCRConfParseFile (render d) c1 = snd (SCRConfAddReference (render d) c1)" for c1
    by (simp add: ParseFile_Nil)
  have "SCRConfParseFile (pre @ body d) de_ctx = SCRConfParseFile (body d) (SCRConfParseFile pre de_ctx)"
    using pre by (rule ParseFile_append)
  also have "\<dots> = SCRConfParseFile (render d) (SCRConfParseFile pre de_ctx)"
    by (simp only: a b)
  also have "\<dots> = SCRConfParseFile (pre @ render d) de_ctx"
    using pre by (rule ParseFile_append [symmetric])
  finally show ?thesis .
qed

lemma concat_render_end: "concat (map render ds) = [] \<or> last (concat (map render ds)) = NL"
  by (induction ds) (auto simp: render_def)

lemma ParseFile_no_final_newline:
  assumes wf: "\<forall>d \<in> set ds. well_formed d \<and> length (body d) \<le> 1023"
  shows "SCRConfParseFile (butlast (concat (map render ds))) de_ctx =
         SCRConfParseFile (concat (map render ds)) de_ctx"
proof (cases ds rule: rev_cases)
  case Nil
  then show ?thesis by simp
next
  case (snoc ds' d)
  with wf have d: "well_formed d" "length (body d) \<le> 1023" by simp_all
  have "butlast (concat (map render ds)) = butlast ((concat (map render ds') @ body d) @ [NL])"
    by (simp add: snoc render_def)
  also have "\<dots> = concat (map render ds') @ body d"
    by (rule butlast_snoc)
  finally have "SCRConfParseFile (butlast (concat (map render ds))) de_ctx =
                SCRConfParseFile (concat (map render ds') @ body d) de_ctx"
    by simp
  also have "\<dots> = SCRConfParseFile (concat (map render ds') @ render d) de_ctx"
    by (rule ParseFile_last_line [OF d concat_render_end])
  finally show ?thesis by (simp add: snoc)
qed

lemma loaded_any_end:
  assumes wf: "\<forall>d \<in> set ds. well_formed d \<and> length (body d) \<le> 1023"
    and st: "stream env = Some (if final_newline then concat (map render ds)
                                else butlast (concat (map render ds)))"
    and ld: "SCRConfLoadReferenceConfigFile env de_ctx0 = Returns (r, de_ctx)"
  shows "SCRConfLoadReferenceConfigFile (reading (concat (map render ds))) de_ctx0 = Returns (0, de_ctx)"
proof -
  from Load_Returns [OF ld st] ParseFile_no_final_newline [OF wf]
  have "de_ctx = SCRConfParseFile (concat (map render ds))
                   (de_ctx0\<lparr>reference_conf_ht := Some (HashTableInit 128)\<rparr>)"
    by (cases final_newline) simp_all
  then show ?thesis by (simp add: Load_reading)
qed


lemma parsed_lookup:
  assumes wf: "\<forall>d \<in> set ds. well_formed d \<and> length (body d) \<le> 1023"
  shows "fst (SCRConfGetReference name
                (SCRConfParseFile (concat (map render ds)) \<lparr>reference_conf_ht = Some (HashTableInit 128)\<rparr>)) =
         map_option (\<lambda>d. \<lparr>system = SCRConfStringToLowercase name, url = Some (dvalue d)\<rparr>)
           (find (\<lambda>d. SCRConfStringToLowercase (dname d) = SCRConfStringToLowercase name) ds)"
    and "ctx_count (SCRConfParseFile (concat (map render ds)) \<lparr>reference_conf_ht = Some (HashTableInit 128)\<rparr>) =
         card ((\<lambda>d. SCRConfStringToLowercase (dname d)) ` set ds)"
proof -
  let ?src = "concat (map render ds)"
  have ld: "SCRConfLoadReferenceConfigFile (reading ?src) \<lparr>reference_conf_ht = None\<rparr> =
            Returns (0, SCRConfParseFile ?src \<lparr>reference_conf_ht = Some (HashTableInit 128)\<rparr>)"
    by (simp add: Load_reading)
  show "fst (SCRConfGetReference name
                (SCRConfParseFile ?src \<lparr>reference_conf_ht = Some (HashTableInit 128)\<rparr>)) =
         map_option (\<lambda>d. \<lparr>system = SCRConfStringToLowercase name, url = Some (dvalue d)\<rparr>)
           (find (\<lambda>d. SCRConfStringToLowercase (dname d) = SCRConfStringToLowercase name) ds)"
    by (rule loaded_lookup [OF wf stream_reading ld])
  show "ctx_count (SCRConfParseFile ?src \<lparr>reference_conf_ht = Some (HashTableInit 128)\<rparr>) =
         card ((\<lambda>d. SCRConfStringToLowercase (dname d)) ` set ds)"
    by (rule loaded_count [OF wf stream_reading ld])
qed

lemma no_match_hd:
  "\<not> pcre_space c \<Longrightarrow> c \<noteq> CHR ''c'' \<Longrightarrow> pcre_exec SC_RCONF_REGEX (c # s) 30 = None"
  by (simp add: SC_RCONF_REGEX_def lits_def pcre_exec_Bol)

lemma ParseFile_cut:
  assumes wf: "well_formed d" and len: "length (body d) = 1023"
  shows "SCRConfParseFile (body d @ ''x'' @ NL # rest) de_ctx =
         SCRConfParseFile (render d @ rest) de_ctx"
proof -
  have nl: "NL \<notin> set (body d @ ''x'')"
    using body_chars(2) [OF wf] by (simp add: NL_def)
  from fgets_long [OF nl, of rest] len
  have f: "fgets 1024 (body d @ ''x'' @ NL # rest) = Some (body d, ''x'' @ NL # rest)"
    by simp
  have s: "c_str (body d) = body d"
    by (rule c_str_id [OF body_chars(1) [OF wf]])
  from classify_well_formed [OF wf, of "[]"]
  have c: "SCRConfIsLineBlankOrComment (body d) = 0" by simp
  have n: "pcre_exec SC_RCONF_REGEX (''x'' @ [NL]) 30 = None"
    using no_match_hd [of "CHR ''x''" "[NL]"] by (simp add: pcre_space_def)
  have x: "SCRConfParseFile (''x'' @ NL # rest) c1 = SCRConfParseFile rest c1" for c1
    using ParseFile_line [of "''x''" rest c1] AddReference_nomatch [OF n, of c1]
    by (simp add: NL_def NUL_def isspace_def)
  have "SCRConfParseFile (body d @ ''x'' @ NL # rest) de_ctx =
        SCRConfParseFile (''x'' @ NL # rest) (snd (SCRConfAddReference (body d) de_ctx))"
    by (simp only: ParseFile_step [OF f] s c) simp
  then have "SCRConfParseFile (body d @ ''x'' @ NL # rest) de_ctx =
        SCRConfParseFile rest (snd (SCRConfAddReference (body d) de_ctx))"
    by (simp only: x)
  also have "\<dots> = SCRConfParseFile (render d @ rest) de_ctx"
    using ParseFile_well_formed [OF wf, of rest de_ctx] len
    by (simp add: AddReference_render [OF wf])
  finally show ?thesis .
qed

lemma value_token_xs:
  assumes "0 < n" "list_all (\<lambda>c. c \<noteq> NL \<and> c \<noteq> NUL) s"
  shows "value_token (replicate n (CHR ''x'') @ s)"
proof -
  from assms(1) obtain m where n: "n = Suc m" by (cases n) auto
  have x: "\<not> pcre_space (CHR ''x'')" "CHR ''x'' \<noteq> NL" "CHR ''x'' \<noteq> NUL"
    by (simp_all add: pcre_space_def NL_def NUL_def)
  with assms(2) show ?thesis
    by (auto simp: value_token_def n list_all_iff)
qed

lemma name_token_one: "name_token ''one''"
  by (simp add: name_token_def eval_defs)

lemma long_directive_cut:
  "well_formed long_directive"
  "well_formed (canonical ''one'' (replicate 1001 (CHR ''x'')))"
  "length (body (canonical ''one'' (replicate 1001 (CHR ''x'')))) = 1023"
  "render long_directive @ rest =
     body (canonical ''one'' (replicate 1001 (CHR ''x''))) @ ''x'' @ NL # rest"
  "length (render long_directive) = 1025"
  "\<not> isspace (last (dvalue long_directive))"
  "replicate 1001 (CHR ''x'') \<noteq> dvalue long_directive"
proof -
  show "well_formed long_directive"
    unfolding long_directive_def
    by (intro canonical_well_formed name_token_one value_token_xs) (simp_all add: NL_def NUL_def)
  from value_token_xs [of 1001 "[]"]
  show "well_formed (canonical ''one'' (replicate 1001 (CHR ''x'')))"
    by (intro canonical_well_formed name_token_one) simp
  show "length (body (canonical ''one'' (replicate 1001 (CHR ''x'')))) = 1023"
    by (simp add: body_def before_name_def canonical_def)
  show "render long_directive @ rest =
     body (canonical ''one'' (replicate 1001 (CHR ''x''))) @ ''x'' @ NL # rest"
    by (simp add: long_directive_def render_def body_def before_name_def canonical_def)
  show "length (render long_directive) = 1025"
    by (simp add: long_directive_def render_canonical)
  show "\<not> isspace (last (dvalue long_directive))"
    by (simp add: long_directive_def canonical_def isspace_def)
  have "length (replicate 1001 (CHR ''x'')) \<noteq> length (dvalue long_directive)"
    by (simp add: long_directive_def canonical_def)
  then show "replicate 1001 (CHR ''x'') \<noteq> dvalue long_directive"
    by metis
qed

lemma lower_one: "SCRConfStringToLowercase ''one'' = ''one''" "SCRConfStringToLowercase ''ONE'' = ''one''"
  by (simp_all add: SCRConfStringToLowercase_def tolower_def char_of_eq_iff char_of_eq_iff')



subsection \<open>Lookup after the load\<close>

text \<open>
  The claim of C1 as the specification states it fails in two ways.  On a source of two
  well-formed lines with the same name and different values, the lookup of the name returns
  the value of the first line, not the value of the second line.  On a source of one
  well-formed line of 1025 characters with its newline, the lookup of the name returns the
  first 1001 characters of the value, not the value: the loader reads the line in two
  pieces and the pattern accepts the first piece.
\<close>

theorem C1_counterexample:
  "well_formed (canonical ''one'' ''http://a'') \<and> well_formed (canonical ''one'' ''http://b'') \<and>
   SCRConfLoadReferenceConfigFile
       (reading (render (canonical ''one'' ''http://a'') @ render (canonical ''one'' ''http://b'')))
       \<lparr>reference_conf_ht = None\<rparr> =
     Returns (0, SCRConfParseFile
                   (render (canonical ''one'' ''http://a'') @ render (canonical ''one'' ''http://b''))
                   \<lparr>reference_conf_ht = Some (HashTableInit 128)\<rparr>) \<and>
   fst (SCRConfGetReference ''one''
          (SCRConfParseFile (render (canonical ''one'' ''http://a'') @ render (canonical ''one'' ''http://b''))
             \<lparr>reference_conf_ht = Some (HashTableInit 128)\<rparr>)) =
     Some \<lparr>system = ''one'', url = Some ''http://a''\<rparr> \<and>
   fst (SCRConfGetReference ''one''
          (SCRConfParseFile (render (canonical ''one'' ''http://a'') @ render (canonical ''one'' ''http://b''))
             \<lparr>reference_conf_ht = Some (HashTableInit 128)\<rparr>)) \<noteq>
     Some \<lparr>system = ''one'', url = Some (dvalue (canonical ''one'' ''http://b''))\<rparr> \<and>
   well_formed long_directive \<and> length (render long_directive) = 1025 \<and>
   \<not> isspace (last (dvalue long_directive)) \<and>
   SCRConfLoadReferenceConfigFile (reading (render long_directive)) \<lparr>reference_conf_ht = None\<rparr> =
     Returns (0, SCRConfParseFile (render long_directive)
                   \<lparr>reference_conf_ht = Some (HashTableInit 128)\<rparr>) \<and>
   fst (SCRConfGetReference ''one''
          (SCRConfParseFile (render long_directive) \<lparr>reference_conf_ht = Some (HashTableInit 128)\<rparr>)) =
     Some \<lparr>system = ''one'', url = Some (replicate 1001 (CHR ''x''))\<rparr> \<and>
   replicate 1001 (CHR ''x'') \<noteq> dvalue long_directive"
proof (intro conjI)
  show "SCRConfLoadReferenceConfigFile
       (reading (render (canonical ''one'' ''http://a'') @ render (canonical ''one'' ''http://b'')))
       \<lparr>reference_conf_ht = None\<rparr> =
     Returns (0, SCRConfParseFile
                   (render (canonical ''one'' ''http://a'') @ render (canonical ''one'' ''http://b''))
                   \<lparr>reference_conf_ht = Some (HashTableInit 128)\<rparr>)"
    by (simp add: Load_reading)
  show "fst (SCRConfGetReference ''one''
          (SCRConfParseFile (render (canonical ''one'' ''http://a'') @ render (canonical ''one'' ''http://b''))
             \<lparr>reference_conf_ht = Some (HashTableInit 128)\<rparr>)) \<noteq>
     Some \<lparr>system = ''one'', url = Some (dvalue (canonical ''one'' ''http://b''))\<rparr>"
    by (simp add: render_canonical eval_defs) (simp add: canonical_def)
  show "well_formed (canonical ''one'' ''http://a'')"
    by (rule canonical_well_formed) (simp_all add: name_token_def value_token_def eval_defs)
  show "well_formed (canonical ''one'' ''http://b'')"
    by (rule canonical_well_formed) (simp_all add: name_token_def value_token_def eval_defs)
  show "fst (SCRConfGetReference ''one''
          (SCRConfParseFile (render (canonical ''one'' ''http://a'') @ render (canonical ''one'' ''http://b''))
             \<lparr>reference_conf_ht = Some (HashTableInit 128)\<rparr>)) =
     Some \<lparr>system = ''one'', url = Some ''http://a''\<rparr>"
    by (simp add: render_canonical eval_defs)
  show "well_formed long_directive" by (rule long_directive_cut(1))
  show "length (render long_directive) = 1025" by (rule long_directive_cut(5))
  show "\<not> isspace (last (dvalue long_directive))" by (rule long_directive_cut(6))
  show "replicate 1001 (CHR ''x'') \<noteq> dvalue long_directive" by (rule long_directive_cut(7))
  show "SCRConfLoadReferenceConfigFile (reading (render long_directive)) \<lparr>reference_conf_ht = None\<rparr> =
     Returns (0, SCRConfParseFile (render long_directive)
                   \<lparr>reference_conf_ht = Some (HashTableInit 128)\<rparr>)"
    by (simp add: Load_reading)
  let ?d = "canonical ''one'' (replicate 1001 (CHR ''x''))"
  let ?c = "\<lparr>reference_conf_ht = Some (HashTableInit 128)\<rparr>"
  have wf: "\<forall>d \<in> set [?d]. well_formed d \<and> length (body d) \<le> 1023"
    using long_directive_cut(2,3) by simp
  from long_directive_cut(4) [of "[]"]
  have "SCRConfParseFile (render long_directive) ?c = SCRConfParseFile (body ?d @ ''x'' @ [NL]) ?c"
    by simp
  also have "\<dots> = SCRConfParseFile (render ?d @ []) ?c"
    by (rule ParseFile_cut [OF long_directive_cut(2,3)])
  finally have p: "SCRConfParseFile (render long_directive) ?c =
                   SCRConfParseFile (concat (map render [?d])) ?c"
    by simp
  have n: "dname ?d = ''one''" "dvalue ?d = replicate 1001 (CHR ''x'')"
    by (simp_all add: canonical_def)
  show "fst (SCRConfGetReference ''one'' (SCRConfParseFile (render long_directive) ?c)) =
     Some \<lparr>system = ''one'', url = Some (replicate 1001 (CHR ''x''))\<rparr>"
    by (simp only: p parsed_lookup(1) [OF wf]) (simp add: n lower_one)
qed

text \<open>
  C1, as the code has it.  Take a source of well-formed lines, each of at most 1024
  characters with its newline and with no white space between the value and the newline;
  the newline of the last line may be missing.
  After the load, the lookup of a name that is the name of some line up to case returns an
  entry of the table whose key is the name up to case and whose \<open>url\<close> is the value of
  the first line of the source that carries this name up to case.  It is the value of the
  line itself when every line with this name carries the same value, in particular when no
  other line has this name.
\<close>

theorem C1_lookup_first_value:
  assumes "\<forall>d \<in> set ds. well_formed d \<and> \<not> isspace (last (dvalue d)) \<and> length (body d) \<le> 1023"
    and "stream env = Some (if final_newline then concat (map render ds)
                            else butlast (concat (map render ds)))"
    and "SCRConfLoadReferenceConfigFile env de_ctx0 = Returns (r, de_ctx)"
    and "d \<in> set ds"
    and "same_name name (dname d)"
  shows "(\<exists>d0 e. find (\<lambda>d'. same_name (dname d') name) ds = Some d0 \<and>
              fst (SCRConfGetReference name de_ctx) = Some e \<and> e \<in> set (ctx_entries de_ctx) \<and>
              same_name (system e) name \<and> url e = Some (dvalue d0)) \<and>
         ((\<forall>d' \<in> set ds. same_name (dname d') (dname d) \<longrightarrow> dvalue d' = dvalue d) \<longrightarrow>
              (\<exists>e. fst (SCRConfGetReference name de_ctx) = Some e \<and> url e = Some (dvalue d)))"
proof -
  let ?k = "SCRConfStringToLowercase name"
  let ?P = "\<lambda>d'. same_name (dname d') name"
  from assms(1) have wf: "\<forall>d \<in> set ds. well_formed d \<and> length (body d) \<le> 1023" by simp
  note st = stream_reading [of "concat (map render ds)"]
  note ld = loaded_any_end [OF wf assms(2,3)]
  note inv = loaded_directives(1) [OF wf st ld]
  from assms(5) have "?P d" by (simp add: same_name_iff)
  with assms(4) have "\<exists>x \<in> set ds. ?P x" by blast
  then obtain d0 where f: "find ?P ds = Some d0"
    by (cases "find ?P ds") (auto simp: find_None_iff)
  then have d0: "d0 \<in> set ds" "?P d0"
    by (auto simp: find_Some_iff)
  from f have f': "find (\<lambda>d'. SCRConfStringToLowercase (dname d') = ?k) ds = Some d0"
    by (simp add: same_name_iff)
  let ?e = "\<lparr>system = ?k, url = Some (dvalue d0)\<rparr>"
  have l: "fst (SCRConfGetReference name de_ctx) = Some ?e"
    by (simp add: loaded_lookup [OF wf st ld] f')
  then have m: "?e \<in> set (ctx_entries de_ctx)"
    by (simp add: GetReference_Some_iff [OF inv])
  have s: "same_name (system ?e) name"
    by (simp add: same_name_lower)
  show ?thesis
  proof (intro conjI impI)
    from f l m s show "\<exists>d0 e. find ?P ds = Some d0 \<and>
              fst (SCRConfGetReference name de_ctx) = Some e \<and> e \<in> set (ctx_entries de_ctx) \<and>
              same_name (system e) name \<and> url e = Some (dvalue d0)"
      by (intro exI [of _ d0] exI [of _ ?e]) simp
  next
    assume a: "\<forall>d' \<in> set ds. same_name (dname d') (dname d) \<longrightarrow> dvalue d' = dvalue d"
    from d0(2) assms(5) have "same_name (dname d0) (dname d)" by (simp add: same_name_iff)
    with a d0(1) have "dvalue d0 = dvalue d" by blast
    with l show "\<exists>e. fst (SCRConfGetReference name de_ctx) = Some e \<and> url e = Some (dvalue d)"
      by simp
  qed
qed

theorem C1_lookup_first_value_witness:
  "\<exists>e. fst (SCRConfGetReference ''ONE''
          (SCRConfParseFile (render (canonical ''one'' ''http://a'') @ render (canonical ''One'' ''http://b''))
             \<lparr>reference_conf_ht = Some (HashTableInit 128)\<rparr>)) = Some e \<and>
        url e = Some ''http://a''"
proof -
  let ?a = "canonical ''one'' ''http://a''"
  let ?b = "canonical ''One'' ''http://b''"
  let ?src = "render ?a @ render ?b"
  let ?c = "SCRConfParseFile ?src \<lparr>reference_conf_ht = Some (HashTableInit 128)\<rparr>"
  have wa: "well_formed ?a"
    by (rule canonical_well_formed) (simp_all add: name_token_def value_token_def eval_defs)
  have wb: "well_formed ?b"
    by (rule canonical_well_formed) (simp_all add: name_token_def value_token_def eval_defs)
  from wa wb have wf: "\<forall>d \<in> set [?a, ?b]. well_formed d \<and> \<not> isspace (last (dvalue d)) \<and>
                         length (body d) \<le> 1023"
    by (simp add: body_def before_name_def canonical_def isspace_def)
  have st: "stream (reading ?src) = Some (if True then concat (map render [?a, ?b])
                                          else butlast (concat (map render [?a, ?b])))"
    by (simp add: stream_reading)
  have ld: "SCRConfLoadReferenceConfigFile (reading ?src) \<lparr>reference_conf_ht = None\<rparr> = Returns (0, ?c)"
    by (simp add: Load_reading)
  have m: "?b \<in> set [?a, ?b]" by simp
  have lo: "same_name ''ONE'' (dname ?b)"
    by (simp add: canonical_def same_name_def same_letter_def)
  have same: "same_name (dname ?a) ''ONE''"
    by (simp add: canonical_def same_name_def same_letter_def)
  from C1_lookup_first_value [OF wf st ld m lo]
  obtain d0 e where "find (\<lambda>d'. same_name (dname d') ''ONE'') [?a, ?b] = Some d0"
    and l: "fst (SCRConfGetReference ''ONE'' ?c) = Some e" "url e = Some (dvalue d0)"
    by blast
  with same have "d0 = ?a" by simp
  with l show ?thesis by (simp add: canonical_def)
qed


subsection \<open>Duplicate names\<close>




subsection \<open>Lines that the pattern rejects\<close>




subsection \<open>Lines without a name or without a value\<close>

lemma AddReference_matched:
  "pcre_exec SC_RCONF_REGEX rawstr 30 \<noteq> None \<Longrightarrow> fst (SCRConfAddReference rawstr de_ctx) = 0"
  by (auto simp: SCRConfAddReference_def pcre_get_substring_def Let_def split: option.splits)

lemma blanks_accepted:
  assumes sd: "spaced d" and n: "name_token n" and w: "blank w" "2 \<le> length w"
    and t: "t = [] \<or> t = [NL]"
  shows "pcre_exec SC_RCONF_REGEX (before_name d @ n @ w @ t) 30 \<noteq> None"
proof -
  from w(2) obtain a b w5 where ws: "w = a # b # w5"
    by (cases w; cases "tl w") auto
  with w(1) have a: "pcre_space a" and b: "b \<noteq> NL" and w5: "list_all pcre_space w5"
    by (auto simp: blank_def list_all_iff)
  let ?d = "d\<lparr>dname := n, sp4 := [a], dvalue := [b]\<rparr>"
  have "pcre_exec SC_RCONF_REGEX (body ?d @ w5 @ t) 30 \<noteq> None"
  proof (rule pcre_exec_I)
    show "spaced ?d" using sd by (simp add: spaced_def)
    show "name_token (dname ?d)" using n by simp
    show "list_all pcre_space (sp4 ?d)" "sp4 ?d \<noteq> []" using a by simp_all
    show "dvalue ?d \<noteq> []" by simp
    show "list_all (\<lambda>c. c \<noteq> NL) (dvalue ?d)" using b by simp
    show "list_all pcre_space w5" by (rule w5)
    show "t = [] \<or> t = [NL]" by (rule t)
  qed
  moreover have "body ?d @ w5 @ t = before_name d @ n @ w @ t"
    by (simp add: body_def before_name_def ws)
  ultimately show ?thesis by simp
qed

lemma one_blank_no_match:
  assumes sd: "spaced d" and n: "name_token n" and s: "pcre_space s" and t: "t = [] \<or> t = [NL]"
  shows "pcre_exec SC_RCONF_REGEX (before_name d @ n @ s # t) 30 = None"
proof (cases "pcre_exec SC_RCONF_REGEX (before_name d @ n @ s # t) 30")
  case None
  then show ?thesis .
next
  case (Some ov)
  from pcre_exec_D [OF Some] obtain e w5 t' where
    line: "before_name d @ n @ s # t = body e @ w5 @ t'" and se: "spaced e"
    and ne: "name_token (dname e)" and s4: "list_all pcre_space (sp4 e)" "sp4 e \<noteq> []"
    and v: "dvalue e \<noteq> []" and va: "list_all (\<lambda>c. c \<noteq> NL) (dvalue e)"
    by (elim exE conjE)
  let ?S = "\<lambda>c. \<not> pcre_space c"
  let ?rest' = "dname e @ sp4 e @ dvalue e @ w5 @ t'"
  from name_token_hd [OF ne] have h: "?rest' \<noteq> []" "is_alpha (hd ?rest')" by simp_all
  from name_token_hd [OF n] have hn: "n @ s # t \<noteq> []" "is_alpha (hd (n @ s # t))" by simp_all
  from line have eq: "before_name d @ (n @ s # t) = before_name e @ ?rest'"
    by (simp add: body_def)
  from before_name_align [OF sd se eq _ h(1) alpha_not_space [OF h(2)]] alpha_not_space [OF hn(2)]
  have e1: "n @ s # t = ?rest'" by simp
  from s4 obtain y ys where y: "sp4 e = y # ys" "\<not> ?S y"
    by (cases "sp4 e") auto
  from v va obtain c u where c: "dvalue e = c # u" "c \<noteq> NL"
    by (cases "dvalue e") auto
  note sn = name_token_no_space [OF n] name_token_no_space [OF ne]
  from e1 y have "n @ s # t = dname e @ y # (ys @ dvalue e @ w5 @ t')" by simp
  from align [OF sn _ y(2) this] s have "t = ys @ c # (u @ w5 @ t')"
    by (simp add: c)
  with t c(2) have False
    by (cases ys) auto
  then show ?thesis ..
qed

text \<open>
  C4, the code at a line with no value.  When the pattern accepts a line, the name that it
  captures is not empty and starts with a letter, and the value that it captures is not
  empty.  A line that is as the pattern wants it up to the white space after the colon, and
  then ends or goes on with a character that is neither a letter nor white space, is
  rejected, and \<open>SCRConfAddReference\<close> returns \<open>-1\<close> for it.  A line that ends after
  the name, or has only the newline after it, is rejected.  The two lines of the
  specification, \<open>config reference one http://x\<close> and \<open>config reference: four\<close>, are
  rejected, with and without a newline at the end, and so is a line with one white space
  character after the name.  But a line that has nothing but two or more white space
  characters after the name is accepted: \<open>\s+\<close> gives one of them back and
  \<open>(.+)\<close> takes it as the value.  For \<open>config reference: four\<close> followed by
  two spaces and the newline, \<open>SCRConfAddReference\<close> returns 0, and after the load
  the lookup of \<open>four\<close> returns an entry whose \<open>url\<close> is one space.
\<close>

theorem C4_blank_value_accepted:
  "(pcre_exec SC_RCONF_REGEX line 30 = Some ov \<longrightarrow>
      (\<exists>a nm. pcre_get_substring line ov 30 1 = Some (a # nm) \<and> is_alpha a) \<and>
      (\<exists>c v. pcre_get_substring line ov 30 2 = Some (c # v))) \<and>
   (spaced d \<and> (rest = [] \<or> \<not> is_alpha (hd rest) \<and> \<not> pcre_space (hd rest)) \<longrightarrow>
      pcre_exec SC_RCONF_REGEX (before_name d @ rest) 30 = None \<and>
      SCRConfAddReference (before_name d @ rest) de_ctx = (-1, de_ctx)) \<and>
   (spaced d \<and> name_token n \<and> (t = [] \<or> t = [NL]) \<longrightarrow>
      pcre_exec SC_RCONF_REGEX (before_name d @ n @ t) 30 = None \<and>
      SCRConfAddReference (before_name d @ n @ t) de_ctx = (-1, de_ctx)) \<and>
   (spaced d \<and> name_token n \<and> pcre_space s \<and> (t = [] \<or> t = [NL]) \<longrightarrow>
      pcre_exec SC_RCONF_REGEX (before_name d @ n @ s # t) 30 = None \<and>
      SCRConfAddReference (before_name d @ n @ s # t) de_ctx = (-1, de_ctx)) \<and>
   pcre_exec SC_RCONF_REGEX ''config reference one http://x'' 30 = None \<and>
   pcre_exec SC_RCONF_REGEX (''config reference one http://x'' @ [NL]) 30 = None \<and>
   pcre_exec SC_RCONF_REGEX ''config reference: four'' 30 = None \<and>
   pcre_exec SC_RCONF_REGEX (''config reference: four'' @ [NL]) 30 = None \<and>
   (spaced d \<and> name_token n \<and> blank w \<and> 2 \<le> length w \<and> (t = [] \<or> t = [NL]) \<longrightarrow>
      pcre_exec SC_RCONF_REGEX (before_name d @ n @ w @ t) 30 \<noteq> None \<and>
      fst (SCRConfAddReference (before_name d @ n @ w @ t) de_ctx) = 0) \<and>
   (\<exists>ov. pcre_exec SC_RCONF_REGEX (''config reference: four  '' @ [NL]) 30 = Some ov \<and>
         pcre_get_substring (''config reference: four  '' @ [NL]) ov 30 1 = Some ''four'' \<and>
         pcre_get_substring (''config reference: four  '' @ [NL]) ov 30 2 = Some '' '') \<and>
   fst (SCRConfAddReference (''config reference: four  '' @ [NL])
          \<lparr>reference_conf_ht = Some (HashTableInit 128)\<rparr>) = 0 \<and>
   fst (SCRConfGetReference ''four''
          (SCRConfParseFile (''config reference: four  '' @ [NL])
             \<lparr>reference_conf_ht = Some (HashTableInit 128)\<rparr>)) =
     Some \<lparr>system = ''four'', url = Some '' ''\<rparr>"
proof (intro conjI impI)
  assume m: "pcre_exec SC_RCONF_REGEX line 30 = Some ov"
  from pcre_exec_D [OF m] obtain d w5 t where
    line: "line = body d @ w5 @ t" and ov: "ov = ov_of d (length (body d @ w5))"
    and n: "name_token (dname d)" and v: "dvalue d \<noteq> []"
    by (elim exE conjE)
  from name_token_hd [OF n] obtain a nm where a: "dname d = a # nm" "is_alpha a"
    by (cases "dname d") auto
  from v obtain c u where c: "dvalue d = c # u" by (cases "dvalue d") auto
  have "pcre_get_substring (body d @ w5 @ t) (ov_of d (length (body d @ w5))) 30 1 = Some (dname d)"
    by (rule substrings_well_formed(1))
  with a show "\<exists>a nm. pcre_get_substring line ov 30 1 = Some (a # nm) \<and> is_alpha a"
    unfolding line ov by (intro exI [of _ a] exI [of _ nm]) simp
  have "pcre_get_substring (body d @ w5 @ t) (ov_of d (length (body d @ w5))) 30 2 = Some (dvalue d)"
    by (rule substrings_well_formed(2))
  with c show "\<exists>c v. pcre_get_substring line ov 30 2 = Some (c # v)"
    unfolding line ov by (intro exI [of _ c] exI [of _ u]) simp
next
  assume a: "spaced d \<and> (rest = [] \<or> \<not> is_alpha (hd rest) \<and> \<not> pcre_space (hd rest))"
  then show n: "pcre_exec SC_RCONF_REGEX (before_name d @ rest) 30 = None"
    by (intro no_name_no_match) simp_all
  then show "SCRConfAddReference (before_name d @ rest) de_ctx = (-1, de_ctx)"
    by (rule AddReference_nomatch)
next
  assume a: "spaced d \<and> name_token n \<and> (t = [] \<or> t = [NL])"
  then show n: "pcre_exec SC_RCONF_REGEX (before_name d @ n @ t) 30 = None"
    by (intro no_value_no_match) simp_all
  then show "SCRConfAddReference (before_name d @ n @ t) de_ctx = (-1, de_ctx)"
    by (rule AddReference_nomatch)
next
  assume a: "spaced d \<and> name_token n \<and> pcre_space s \<and> (t = [] \<or> t = [NL])"
  then show n: "pcre_exec SC_RCONF_REGEX (before_name d @ n @ s # t) 30 = None"
    by (intro one_blank_no_match) simp_all
  then show "SCRConfAddReference (before_name d @ n @ s # t) de_ctx = (-1, de_ctx)"
    by (rule AddReference_nomatch)
next
  assume a: "spaced d \<and> name_token n \<and> blank w \<and> 2 \<le> length w \<and> (t = [] \<or> t = [NL])"
  then show m: "pcre_exec SC_RCONF_REGEX (before_name d @ n @ w @ t) 30 \<noteq> None"
    by (intro blanks_accepted) simp_all
  then show "fst (SCRConfAddReference (before_name d @ n @ w @ t) de_ctx) = 0"
    by (rule AddReference_matched)
next
  show "pcre_exec SC_RCONF_REGEX ''config reference one http://x'' 30 = None"
    by (simp add: eval_defs)
  show "pcre_exec SC_RCONF_REGEX (''config reference one http://x'' @ [NL]) 30 = None"
    by (simp add: eval_defs)
  show "pcre_exec SC_RCONF_REGEX ''config reference: four'' 30 = None"
    by (simp add: eval_defs)
  show "pcre_exec SC_RCONF_REGEX (''config reference: four'' @ [NL]) 30 = None"
    by (simp add: eval_defs)
  show "\<exists>ov. pcre_exec SC_RCONF_REGEX (''config reference: four  '' @ [NL]) 30 = Some ov \<and>
         pcre_get_substring (''config reference: four  '' @ [NL]) ov 30 1 = Some ''four'' \<and>
         pcre_get_substring (''config reference: four  '' @ [NL]) ov 30 2 = Some '' ''"
    by (simp add: eval_defs)
  show "fst (SCRConfAddReference (''config reference: four  '' @ [NL])
          \<lparr>reference_conf_ht = Some (HashTableInit 128)\<rparr>) = 0"
    by (simp add: eval_defs)
  show "fst (SCRConfGetReference ''four''
          (SCRConfParseFile (''config reference: four  '' @ [NL])
             \<lparr>reference_conf_ht = Some (HashTableInit 128)\<rparr>)) =
     Some \<lparr>system = ''four'', url = Some '' ''\<rparr>"
    by (simp add: eval_defs)
qed

lemma spaced_canonical: "spaced (canonical n v)"
  by (simp add: spaced_def canonical_def pcre_space_def)

lemma before_name_canonical: "before_name (canonical n v) = ''config reference: ''"
  by (simp add: before_name_def canonical_def)

theorem C4_blank_value_accepted_witness:
  "(\<exists>a nm. pcre_get_substring ''config reference: cve http://x''
              (ov_of (canonical ''cve'' ''http://x'') (length ''config reference: cve http://x'')) 30 1 = Some (a # nm) \<and> is_alpha a) \<and>
   SCRConfAddReference ''config reference: 9cve http://x'' \<lparr>reference_conf_ht = None\<rparr> =
     (-1, \<lparr>reference_conf_ht = None\<rparr>) \<and>
   SCRConfAddReference (''config reference: cve'' @ [NL]) \<lparr>reference_conf_ht = None\<rparr> =
     (-1, \<lparr>reference_conf_ht = None\<rparr>) \<and>
   SCRConfAddReference (''config reference: cve '' @ [NL]) \<lparr>reference_conf_ht = None\<rparr> =
     (-1, \<lparr>reference_conf_ht = None\<rparr>) \<and>
   fst (SCRConfAddReference (''config reference: cve'' @ [CHR '' '', CHR 0x09] @ [NL])
          \<lparr>reference_conf_ht = None\<rparr>) = 0"
proof -
  let ?d = "canonical ''cve'' ''http://x''"
  let ?c = "\<lparr>reference_conf_ht = None\<rparr>"
  let ?w = "[CHR '' '', CHR 0x09]"
  have wf: "well_formed ?d"
    by (rule canonical_well_formed) (simp_all add: name_token_def value_token_def eval_defs)
  have b: "body ?d @ [] = ''config reference: cve http://x''"
    by (simp add: body_def before_name_canonical) (simp add: canonical_def)
  from pcre_exec_well_formed [OF wf, of "[]"]
  have m: "pcre_exec SC_RCONF_REGEX ''config reference: cve http://x'' 30 = Some (ov_of ?d (length ''config reference: cve http://x''))"
    by (simp only: b) simp
  have r: "''9cve http://x'' = [] \<or>
           \<not> is_alpha (hd ''9cve http://x'') \<and> \<not> pcre_space (hd ''9cve http://x'')"
    by (simp add: eval_defs)
  have n: "name_token ''cve''"
    by (simp add: name_token_def eval_defs)
  have w: "blank ?w" "2 \<le> length ?w"
    by (simp_all add: blank_def pcre_space_def NL_def)
  note t = C4_blank_value_accepted [of "''config reference: cve http://x''" "ov_of ?d (length ''config reference: cve http://x'')"
      ?d "''9cve http://x''" ?c "''cve''" "[NL]" "CHR '' ''" ?w]
  have sp: "pcre_space (CHR '' '')" by (simp add: pcre_space_def)
  from t m have "\<exists>a nm. pcre_get_substring ''config reference: cve http://x''
              (ov_of ?d (length ''config reference: cve http://x'')) 30 1 = Some (a # nm) \<and> is_alpha a"
    by blast
  moreover from t r spaced_canonical [of "''cve''" "''http://x''"]
  have "SCRConfAddReference (before_name ?d @ ''9cve http://x'') ?c = (-1, ?c)"
    by blast
  moreover from t n spaced_canonical [of "''cve''" "''http://x''"]
  have "SCRConfAddReference (before_name ?d @ ''cve'' @ [NL]) ?c = (-1, ?c)"
    by blast
  moreover from t n sp spaced_canonical [of "''cve''" "''http://x''"]
  have "SCRConfAddReference (before_name ?d @ ''cve'' @ CHR '' '' # [NL]) ?c = (-1, ?c)"
    by blast
  moreover from t n w spaced_canonical [of "''cve''" "''http://x''"]
  have "fst (SCRConfAddReference (before_name ?d @ ''cve'' @ ?w @ [NL]) ?c) = 0"
    by blast
  ultimately show ?thesis
    by (simp add: before_name_canonical)
qed

subsection \<open>White space at the end of a line\<close>

text \<open>
  C7, the code at lines with white space at the end.  Two spaces or a tab between the value
  and the newline are stored as the end of the value: the greedy \<open>(.+)\<close> takes them
  before \<open>\s*\<close> can.  White space inside the value is kept.  When only white space
  follows the name, the value that is stored is a white space character.
\<close>

theorem C7_trailing_whitespace_kept:
  "fst (SCRConfGetReference ''one''
          (SCRConfParseFile (''config reference: one http://www.one.com  '' @ [NL])
             \<lparr>reference_conf_ht = Some (HashTableInit 128)\<rparr>)) =
     Some \<lparr>system = ''one'', url = Some ''http://www.one.com  ''\<rparr> \<and>
   fst (SCRConfGetReference ''one''
          (SCRConfParseFile (''config reference: one http://www.one.com'' @ [CHR 0x09, NL])
             \<lparr>reference_conf_ht = Some (HashTableInit 128)\<rparr>)) =
     Some \<lparr>system = ''one'', url = Some (''http://www.one.com'' @ [CHR 0x09])\<rparr> \<and>
   fst (SCRConfGetReference ''one''
          (SCRConfParseFile (''config reference: one a  b c'' @ [NL])
             \<lparr>reference_conf_ht = Some (HashTableInit 128)\<rparr>)) =
     Some \<lparr>system = ''one'', url = Some ''a  b c''\<rparr> \<and>
   fst (SCRConfGetReference ''one''
          (SCRConfParseFile (''config reference: one   '' @ [NL])
             \<lparr>reference_conf_ht = Some (HashTableInit 128)\<rparr>)) =
     Some \<lparr>system = ''one'', url = Some '' ''\<rparr> \<and>
   isspace (last ''http://www.one.com  '') \<and> isspace (CHR 0x09)"
proof (intro conjI)
  show "fst (SCRConfGetReference ''one''
          (SCRConfParseFile (''config reference: one http://www.one.com  '' @ [NL])
             \<lparr>reference_conf_ht = Some (HashTableInit 128)\<rparr>)) =
     Some \<lparr>system = ''one'', url = Some ''http://www.one.com  ''\<rparr>"
    by (simp add: eval_defs)
  show "fst (SCRConfGetReference ''one''
          (SCRConfParseFile (''config reference: one http://www.one.com'' @ [CHR 0x09, NL])
             \<lparr>reference_conf_ht = Some (HashTableInit 128)\<rparr>)) =
     Some \<lparr>system = ''one'', url = Some (''http://www.one.com'' @ [CHR 0x09])\<rparr>"
    by (simp add: eval_defs)
  show "fst (SCRConfGetReference ''one''
          (SCRConfParseFile (''config reference: one a  b c'' @ [NL])
             \<lparr>reference_conf_ht = Some (HashTableInit 128)\<rparr>)) =
     Some \<lparr>system = ''one'', url = Some ''a  b c''\<rparr>"
    by (simp add: eval_defs)
  show "fst (SCRConfGetReference ''one''
          (SCRConfParseFile (''config reference: one   '' @ [NL])
             \<lparr>reference_conf_ht = Some (HashTableInit 128)\<rparr>)) =
     Some \<lparr>system = ''one'', url = Some '' ''\<rparr>"
    by (simp add: eval_defs)
  show "isspace (last ''http://www.one.com  '')" by (simp add: isspace_def)
  show "isspace (CHR 0x09)" by (simp add: isspace_def)
qed

subsection \<open>The line buffer\<close>



end
